theory Spec2Isabelle
  imports Main "HOL-Library.AList" "HOL-Library.Multiset"
begin

section \<open>The check runner of the checkly CLI\<close>

text \<open>
  A shallow embedding of \<^verbatim>\<open>packages/cli/src/services/abstract-check-runner.ts\<close>.
  The class \<^verbatim>\<open>AbstractCheckRunner\<close> is a record of its fields together with the parts
  of the JavaScript runtime its methods act on: the table of pending \<^verbatim>\<open>setTimeout\<close>
  timers, the paused work queue, the listener that \<^verbatim>\<open>allChecksFinished\<close> registers, and
  the sequence of events emitted so far. Every method is a function on that record.
  JavaScript \<^verbatim>\<open>Map\<close>s are association lists in insertion order (\<open>map_of\<close> is
  \<^verbatim>\<open>get\<close>, \<open>AList.update\<close> is \<^verbatim>\<open>set\<close>, \<open>AList.delete\<close> is \<^verbatim>\<open>delete\<close>).
\<close>

subsection \<open>Data model\<close>

text \<open>The enum \<^verbatim>\<open>Events\<close>, constructor for constructor.\<close>

datatype Events =
    CHECK_REGISTERED
  | CHECK_INPROGRESS
  | CHECK_FAILED
  | CHECK_SUCCESSFUL
  | CHECK_FINISHED
  | RUN_STARTED
  | RUN_FINISHED
  | ERROR

type_synonym CheckRunId = string

text \<open>
  A rejected promise or a thrown exception is a value: \<open>TypeError\<close> is what the runtime
  throws when a property of \<^verbatim>\<open>undefined\<close> is read, \<open>Failure\<close> is a rejection
  handed in by a collaborator (socket, dispatch hook, asset service).
\<close>

datatype error = TypeError | Failure string

text \<open>
  The payload of a message is typed \<^verbatim>\<open>any\<close> in the source. The model gives it the
  shape \<^verbatim>\<open>processMessage\<close> destructures: an optional \<^verbatim>\<open>result\<close> with optional
  \<^verbatim>\<open>assets\<close>; everything else the payload holds is the opaque \<open>body\<close>.
\<close>

record result_assets =
  region :: string
  logPath :: "string option"
  checkRunDataPath :: "string option"
  playwrightTestTraceFiles :: "string list option"
  playwrightTestVideoFiles :: "string list option"

record result =
  assets :: "result_assets option"
  hasFailures :: bool
  logs :: "string option"
  checkRunData :: "string option"
  traceFilesUrls :: "string list option"
  videoFilesUrls :: "string list option"

record message =
  result :: "result option"
  body :: string

text \<open>The arguments of one \<^verbatim>\<open>this.emit(event, ...)\<close> call; a check descriptor that
  \<^verbatim>\<open>Map.get\<close> did not find is \<open>ACheck None\<close> (\<^verbatim>\<open>undefined\<close>).\<close>

datatype 'c arg =
    ACheck "'c option"
  | AMessage message
  | AText string
  | AResult result
  | ASession "string option"
  | AResultIds "(string \<times> string) list option"
  | AError error

type_synonym 'c emission = "Events \<times> 'c arg list"

text \<open>A pending \<^verbatim>\<open>setTimeout\<close>: its delay in milliseconds and the variables its
  callback closes over.\<close>

datatype 'c timer = Timer (delay: int) (cb_checkRunId: CheckRunId) (cb_check: 'c)

text \<open>Calls to the collaborators, in the order they are made.\<close>

datatype call = Connect | Subscribe string | ScheduleChecks string | End

datatype run_state = NotRunning | Awaiting | Returned

text \<open>
  JavaScript numbers are doubles. The model covers a timeout that is a whole number of
  seconds whose product with 1000 is below \<open>2 ^ 53\<close> in absolute value: on these the
  double product \<^verbatim>\<open>this.timeout * 1000\<close> is the exact product and the template
  literal prints the decimal digits. Other timeouts (fractions, larger numbers) are
  not values of the type.
\<close>

typedef seconds = "{n :: int. \<bar>n\<bar> * 1000 < 2 ^ 53}"
  morphisms seconds_value Seconds
  by (rule exI [of _ 0]) simp

text \<open>
  A call of \<^verbatim>\<open>processMessage\<close> that is suspended at an \<^verbatim>\<open>await\<close> of its
  \<^verbatim>\<open>run-end\<close> branch: the local variable \<^verbatim>\<open>check\<close>, and what the awaited fetches
  will have made of the result when the call goes on (the enriched result, or the
  rejection that leaves the method).
\<close>

datatype 'c suspended = Suspended (s_check: "'c option") (s_outcome: "error + result")

record 'c runner =
  checks :: "(CheckRunId \<times> 'c) list option"
  timeouts :: "(CheckRunId \<times> nat) list"
  accountId :: string
  timeout :: seconds
  verbose :: bool
  queue :: "(CheckRunId \<times> string \<times> message) list"
  queue_started :: bool
  busy :: "'c suspended option"
  rejected :: "error list"
  emitted :: "'c emission list"
  finished_listener :: "nat option"
  finishedCheckCount :: nat
  resolve_calls :: nat
  promise :: "bool option"
  timers :: "(nat \<times> 'c timer) list"
  next_handle :: nat
  listening :: bool
  testSessionId :: "string option"
  run_state :: run_state
  calls :: "call list"

text \<open>
  Fields beyond the five of the class:
  \<^item> \<open>queue\<close>, \<open>queue_started\<close>, \<open>busy\<close>, \<open>rejected\<close>: the \<^verbatim>\<open>PQueue\<close>
    (\<^verbatim>\<open>autoStart: false, concurrency: 1\<close>): its pending tasks in arrival order, whether
    \<^verbatim>\<open>start()\<close> was called, the task it has started and that is suspended at an
    \<^verbatim>\<open>await\<close>, and the rejections of the promises \<^verbatim>\<open>queue.add\<close> returned, which
    nothing handles;
  \<^item> \<open>emitted\<close>: every \<^verbatim>\<open>emit\<close> call so far, oldest first;
  \<^item> \<open>finished_listener\<close>, \<open>finishedCheckCount\<close>, \<open>resolve_calls\<close>, \<open>promise\<close>: the closure
    of \<^verbatim>\<open>allChecksFinished\<close>: the captured \<^verbatim>\<open>numChecks\<close> once the listener is
    registered, the counter, how often \<^verbatim>\<open>resolve()\<close> was called, and the promise
    (\<open>None\<close> not created, \<open>Some False\<close> pending, \<open>Some True\<close> resolved);
  \<^item> \<open>timers\<close>, \<open>next_handle\<close>: the runtime's pending timers by handle;
  \<^item> \<open>listening\<close>: the socket's \<^verbatim>\<open>message\<close> listener is registered and the socket open;
  \<^item> \<open>testSessionId\<close>, \<open>run_state\<close>: the local variable of \<^verbatim>\<open>run()\<close> that the code
    after \<^verbatim>\<open>await allChecksFinished\<close> reads, and where \<^verbatim>\<open>run()\<close> stands;
  \<^item> \<open>calls\<close>: the calls made to the socket and to the dispatch hook.

  A \<^verbatim>\<open>Map\<close> has one entry per key: the association list of \<open>checks\<close> has distinct
  keys, which the properties that count checks assume. A runner is run once.
\<close>

definition constructor :: "string \<Rightarrow> seconds \<Rightarrow> bool \<Rightarrow> 'c runner" where
  "constructor accountId' timeout' verbose' =
     \<lparr> checks = None, timeouts = [], accountId = accountId', timeout = timeout',
       verbose = verbose', queue = [], queue_started = False, busy = None,
       rejected = [], emitted = [],
       finished_listener = None, finishedCheckCount = 0, resolve_calls = 0,
       promise = None, timers = [], next_handle = 0, listening = False,
       testSessionId = None, run_state = NotRunning, calls = [] \<rparr>"

subsection \<open>The event emitter and the completion tracker\<close>

text \<open>
  \<^verbatim>\<open>resolve()\<close> of the promise created in \<^verbatim>\<open>allChecksFinished\<close>, and the listener
  registered there:
  \<^verbatim>\<open>finishedCheckCount++; if (finishedCheckCount === numChecks) resolve()\<close>.
\<close>

definition resolve :: "'c runner \<Rightarrow> 'c runner" where
  "resolve s = s\<lparr>resolve_calls := Suc (resolve_calls s), promise := Some True\<rparr>"

definition on_check_finished :: "'c runner \<Rightarrow> 'c runner" where
  "on_check_finished s =
     (case finished_listener s of
        None \<Rightarrow> s
      | Some numChecks \<Rightarrow>
          (let s1 = s\<lparr>finishedCheckCount := Suc (finishedCheckCount s)\<rparr>
           in if finishedCheckCount s1 = numChecks then resolve s1 else s1))"

text \<open>\<^verbatim>\<open>this.emit\<close>: the event is recorded and the listeners run synchronously. The
  listeners of the consumer are outside the class and are taken not to throw.\<close>

definition emit :: "Events \<Rightarrow> 'c arg list \<Rightarrow> 'c runner \<Rightarrow> 'c runner" where
  "emit ev args s =
     (let s1 = s\<lparr>emitted := emitted s @ [(ev, args)]\<rparr>
      in if ev = CHECK_FINISHED then on_check_finished s1 else s1)"

text \<open>\<^verbatim>\<open>allChecksFinished\<close>; \<^verbatim>\<open>this.checks!.size\<close> throws when \<^verbatim>\<open>checks\<close> is
  undefined.\<close>

definition allChecksFinished :: "'c runner \<Rightarrow> error option \<times> 'c runner" where
  "allChecksFinished s =
     (case checks s of
        None \<Rightarrow> (Some TypeError, s)
      | Some cs \<Rightarrow>
          (let s1 = s\<lparr>finishedCheckCount := 0\<rparr>; numChecks = length cs
           in if numChecks = 0 then (None, s1\<lparr>promise := Some True\<rparr>)
              else (None, s1\<lparr>finished_listener := Some numChecks, promise := Some False\<rparr>)))"

subsection \<open>The timer registry\<close>

definition setTimeout :: "'c timer \<Rightarrow> 'c runner \<Rightarrow> nat \<times> 'c runner" where
  "setTimeout t s =
     (next_handle s,
      s\<lparr>timers := timers s @ [(next_handle s, t)], next_handle := Suc (next_handle s)\<rparr>)"

text \<open>\<^verbatim>\<open>clearTimeout(undefined)\<close> does nothing.\<close>

definition clearTimeout :: "nat option \<Rightarrow> 'c runner \<Rightarrow> 'c runner" where
  "clearTimeout h s =
     (case h of None \<Rightarrow> s | Some h' \<Rightarrow> s\<lparr>timers := AList.delete h' (timers s)\<rparr>)"

definition disableTimeout :: "CheckRunId \<Rightarrow> 'c runner \<Rightarrow> 'c runner" where
  "disableTimeout checkRunId s =
     (let timeout' = map_of (timeouts s) checkRunId;
          s1 = clearTimeout timeout' s
      in s1\<lparr>timeouts := AList.delete checkRunId (timeouts s1)\<rparr>)"

definition disableAllTimeouts :: "'c runner \<Rightarrow> 'c runner" where
  "disableAllTimeouts s =
     (case checks s of
        None \<Rightarrow> s
      | Some cs \<Rightarrow> foldl (\<lambda>s' (checkRunId, _). disableTimeout checkRunId s') s cs)"

text \<open>Number to string, as the template literal of the timeout message does it for a
  whole number in the range of \<open>seconds\<close>: the decimal digits, after a minus sign for a
  negative number.\<close>

definition digit :: "nat \<Rightarrow> char" where
  "digit n = ''0123456789'' ! (n mod 10)"

function string_of_nat :: "nat \<Rightarrow> string" where
  "string_of_nat n =
     (if n < 10 then [digit n] else string_of_nat (n div 10) @ [digit (n mod 10)])"
  by pat_completeness auto
termination
  by (relation "measure id") auto

declare string_of_nat.simps [simp del]

definition string_of_int :: "int \<Rightarrow> string" where
  "string_of_int i =
     (if i < 0 then CHR ''-'' # string_of_nat (nat (- i)) else string_of_nat (nat i))"

definition timeout_message :: "seconds \<Rightarrow> string" where
  "timeout_message t =
     ''Reached timeout of '' @ string_of_int (seconds_value t)
       @ '' seconds waiting for check result.''"

text \<open>Reading a decimal numeral back, to say what the digits of a message denote.\<close>

definition digit_of :: "char \<Rightarrow> nat option" where
  "digit_of c =
     map_of [(CHR ''0'', 0), (CHR ''1'', 1), (CHR ''2'', 2), (CHR ''3'', 3), (CHR ''4'', 4),
             (CHR ''5'', 5), (CHR ''6'', 6), (CHR ''7'', 7), (CHR ''8'', 8), (CHR ''9'', 9)] c"

definition read_nat :: "string \<Rightarrow> nat option" where
  "read_nat ds =
     (if ds = [] then None
      else foldl (\<lambda>acc c. case acc of None \<Rightarrow> None
                           | Some n \<Rightarrow> (case digit_of c of None \<Rightarrow> None
                                        | Some d \<Rightarrow> Some (10 * n + d)))
             (Some 0) ds)"

definition read_int :: "string \<Rightarrow> int option" where
  "read_int ds =
     (case ds of
        [] \<Rightarrow> None
      | c # cs \<Rightarrow> if c = CHR ''-'' then map_option (\<lambda>n. - int n) (read_nat cs)
                  else map_option int (read_nat ds))"

text \<open>The callback handed to \<^verbatim>\<open>setTimeout\<close> in \<^verbatim>\<open>setAllTimeouts\<close>.\<close>

definition timeout_callback :: "CheckRunId \<Rightarrow> 'c \<Rightarrow> 'c runner \<Rightarrow> 'c runner" where
  "timeout_callback checkRunId check s =
     (let s1 = s\<lparr>timeouts := AList.delete checkRunId (timeouts s)\<rparr>;
          s2 = emit CHECK_FAILED [ACheck (Some check), AText (timeout_message (timeout s1))] s1
      in emit CHECK_FINISHED [ACheck (Some check)] s2)"

text \<open>One round of the \<^verbatim>\<open>forEach\<close> in \<^verbatim>\<open>setAllTimeouts\<close>, and the method.\<close>

definition arm :: "'c runner \<Rightarrow> CheckRunId \<times> 'c \<Rightarrow> 'c runner" where
  "arm s entry =
     (case entry of (checkRunId, check) \<Rightarrow>
        (case setTimeout (Timer (seconds_value (timeout s) * 1000) checkRunId check) s of
           (h, s1) \<Rightarrow> s1\<lparr>timeouts := AList.update checkRunId h (timeouts s1)\<rparr>))"

definition setAllTimeouts :: "'c runner \<Rightarrow> error option \<times> 'c runner" where
  "setAllTimeouts s =
     (case checks s of
        None \<Rightarrow> (Some TypeError, s)
      | Some cs \<Rightarrow> (None, foldl arm s cs))"

subsection \<open>The result correlator\<close>

text \<open>The asset service (\<^verbatim>\<open>assets\<close> of \<^verbatim>\<open>../rest/api\<close>): every call resolves
  (\<open>Inr\<close>) or rejects (\<open>Inl\<close>).\<close>

record assets_api =
  getLogs :: "string \<Rightarrow> string \<Rightarrow> error + string"
  getCheckRunData :: "string \<Rightarrow> string \<Rightarrow> error + string"
  getAssetsLink :: "string \<Rightarrow> string \<Rightarrow> error + string"

text \<open>Truthiness of an optional string and of \<^verbatim>\<open>xs && xs.length\<close>.\<close>

definition truthy_path :: "string option \<Rightarrow> bool" where
  "truthy_path p = (case p of None \<Rightarrow> False | Some x \<Rightarrow> x \<noteq> [])"

definition truthy_files :: "string list option \<Rightarrow> bool" where
  "truthy_files fs = (case fs of None \<Rightarrow> False | Some xs \<Rightarrow> xs \<noteq> [])"

text \<open>\<^verbatim>\<open>Promise.all\<close>: rejects when one of the promises rejects.\<close>

fun promise_all :: "(error + 'a) list \<Rightarrow> error + 'a list" where
  "promise_all [] = Inr []"
| "promise_all (Inl e # ps) = Inl e"
| "promise_all (Inr x # ps) = (case promise_all ps of Inl e \<Rightarrow> Inl e | Inr xs \<Rightarrow> Inr (x # xs))"

text \<open>The two fetches before the \<^verbatim>\<open>try\<close> block: a rejection leaves the method.\<close>

definition fetch_logs :: "assets_api \<Rightarrow> bool \<Rightarrow> result_assets \<Rightarrow> result \<Rightarrow> error + result" where
  "fetch_logs api verbose' a res =
     (if truthy_path (logPath a) \<and> (verbose' \<or> hasFailures res)
      then (case getLogs api (region a) (the (logPath a)) of
              Inl e \<Rightarrow> Inl e
            | Inr l \<Rightarrow> Inr (res\<lparr>logs := Some l\<rparr>))
      else Inr res)"

definition fetch_checkRunData :: "assets_api \<Rightarrow> bool \<Rightarrow> result_assets \<Rightarrow> result \<Rightarrow> error + result" where
  "fetch_checkRunData api verbose' a res =
     (if truthy_path (checkRunDataPath a) \<and> (verbose' \<or> hasFailures res)
      then (case getCheckRunData api (region a) (the (checkRunDataPath a)) of
              Inl e \<Rightarrow> Inl e
            | Inr d \<Rightarrow> Inr (res\<lparr>checkRunData := Some d\<rparr>))
      else Inr res)"

text \<open>The \<^verbatim>\<open>try { ... } catch { }\<close> block: a rejection of a link fetch ends the block
  and keeps what was assigned before it.\<close>

definition fetch_links :: "assets_api \<Rightarrow> result_assets \<Rightarrow> result \<Rightarrow> result" where
  "fetch_links api a res =
     (if hasFailures res then
        (case (if truthy_files (playwrightTestTraceFiles a)
               then (case promise_all (map (getAssetsLink api (region a))
                                           (the (playwrightTestTraceFiles a))) of
                       Inl e \<Rightarrow> Inl e
                     | Inr urls \<Rightarrow> Inr (res\<lparr>traceFilesUrls := Some urls\<rparr>))
               else Inr res) of
           Inl e \<Rightarrow> res
         | Inr res1 \<Rightarrow>
             (if truthy_files (playwrightTestVideoFiles a)
              then (case promise_all (map (getAssetsLink api (region a))
                                          (the (playwrightTestVideoFiles a))) of
                      Inl e \<Rightarrow> res1
                    | Inr urls \<Rightarrow> res1\<lparr>videoFilesUrls := Some urls\<rparr>)
              else res1))
      else res)"

text \<open>
  The \<^verbatim>\<open>run-end\<close> branch between \<^verbatim>\<open>disableTimeout\<close> and the two
  \<^verbatim>\<open>emit\<close> calls: the payload is destructured (reading \<^verbatim>\<open>assets\<close> of an
  undefined \<^verbatim>\<open>result\<close>, or destructuring undefined \<^verbatim>\<open>assets\<close>, throws) and
  the artifacts are fetched. The value is the enriched result, or the exception that
  leaves the method.
\<close>

definition run_end_result :: "assets_api \<Rightarrow> bool \<Rightarrow> message \<Rightarrow> error + result" where
  "run_end_result api verbose' message' =
     (case result message' of
        None \<Rightarrow> Inl TypeError
      | Some res \<Rightarrow>
         (case assets res of
            None \<Rightarrow> Inl TypeError
          | Some a \<Rightarrow>
             (case fetch_logs api verbose' a res of
                Inl e \<Rightarrow> Inl e
              | Inr res1 \<Rightarrow>
                 (case fetch_checkRunData api verbose' a res1 of
                    Inl e \<Rightarrow> Inl e
                  | Inr res2 \<Rightarrow> Inr (fetch_links api a res2)))))"

text \<open>
  \<^verbatim>\<open>processMessage\<close>. The first component is the rejection of the returned promise,
  if any; the state changes made before the rejection stay. This is the call from
  its first statement to its last, with nothing else happening at its awaits: the
  timer of the check itself is cleared before the first of them, and nothing is emitted
  and no field is written between them.
\<close>

definition processMessage ::
  "assets_api \<Rightarrow> CheckRunId \<Rightarrow> string \<Rightarrow> message \<Rightarrow> 'c runner \<Rightarrow> error option \<times> 'c runner" where
  "processMessage api checkRunId subtopic message' s =
     (if map_of (timeouts s) checkRunId = None then (None, s)
      else (case checks s of
        None \<Rightarrow> (Some TypeError, s)
      | Some cs \<Rightarrow>
         (let check = map_of cs checkRunId in
          if subtopic = ''run-start'' then
            (None, emit CHECK_INPROGRESS [ACheck check] s)
          else if subtopic = ''run-end'' then
            (let s1 = disableTimeout checkRunId s in
             case run_end_result api (verbose s1) message' of
               Inl e \<Rightarrow> (Some e, s1)
             | Inr res \<Rightarrow>
                (let s2 = emit CHECK_SUCCESSFUL [ACheck check, AResult res] s1
                 in (None, emit CHECK_FINISHED [ACheck check] s2)))
          else if subtopic = ''error'' then
            (let s1 = disableTimeout checkRunId s;
                 s2 = emit CHECK_FAILED [ACheck check, AMessage message'] s1
             in (None, emit CHECK_FINISHED [ACheck check] s2))
          else (None, s))))"

text \<open>
  The same method cut at its awaits, as the queue runs it. Whether the \<^verbatim>\<open>run-end\<close>
  branch reaches an \<^verbatim>\<open>await\<close>: the payload can be destructured and one of the three
  conditions that guard a fetch holds. Up to its first \<^verbatim>\<open>await\<close> the call has only
  cancelled the timer; the events, or the rejection, come when the call goes on. A
  call that reaches no \<^verbatim>\<open>await\<close> runs to its end at once.
\<close>

definition reaches_await :: "bool \<Rightarrow> message \<Rightarrow> bool" where
  "reaches_await verbose' message' =
     (case result message' of
        None \<Rightarrow> False
      | Some res \<Rightarrow>
         (case assets res of
            None \<Rightarrow> False
          | Some a \<Rightarrow>
              (truthy_path (logPath a) \<and> (verbose' \<or> hasFailures res))
            \<or> (truthy_path (checkRunDataPath a) \<and> (verbose' \<or> hasFailures res))
            \<or> (hasFailures res
                \<and> (truthy_files (playwrightTestTraceFiles a)
                   \<or> truthy_files (playwrightTestVideoFiles a)))))"

definition processMessage_start ::
  "assets_api \<Rightarrow> CheckRunId \<Rightarrow> string \<Rightarrow> message \<Rightarrow> 'c runner
     \<Rightarrow> ('c suspended + error option) \<times> 'c runner" where
  "processMessage_start api checkRunId subtopic message' s =
     (case checks s of
        Some cs \<Rightarrow>
          if map_of (timeouts s) checkRunId \<noteq> None \<and> subtopic = ''run-end''
             \<and> reaches_await (verbose s) message'
          then (Inl (Suspended (map_of cs checkRunId) (run_end_result api (verbose s) message')),
                disableTimeout checkRunId s)
          else (case processMessage api checkRunId subtopic message' s of
                  (e, s') \<Rightarrow> (Inr e, s'))
      | None \<Rightarrow>
          (case processMessage api checkRunId subtopic message' s of
             (e, s') \<Rightarrow> (Inr e, s')))"

definition processMessage_resume :: "'c suspended \<Rightarrow> 'c runner \<Rightarrow> error option \<times> 'c runner" where
  "processMessage_resume c s =
     (case s_outcome c of
        Inl e \<Rightarrow> (Some e, s)
      | Inr res \<Rightarrow>
          (let s2 = emit CHECK_SUCCESSFUL [ACheck (s_check c), AResult res] s
           in (None, emit CHECK_FINISHED [ACheck (s_check c)] s2)))"

subsection \<open>The work queue and the socket listener\<close>

text \<open>
  The listener registered in \<^verbatim>\<open>configureResultListener\<close> adds one task per
  message to the queue; the message arrives here already split into check identifier,
  subtopic and parsed payload. A closed socket delivers nothing.
\<close>

definition on_message :: "CheckRunId \<times> string \<times> message \<Rightarrow> 'c runner \<Rightarrow> 'c runner" where
  "on_message m s = (if listening s then s\<lparr>queue := queue s @ [m]\<rparr> else s)"

text \<open>
  The queue starts its oldest task: it calls \<^verbatim>\<open>processMessage\<close>, which runs up to
  its first \<^verbatim>\<open>await\<close> or to its end. A suspended call keeps the queue busy; a
  rejection is recorded. The asset service answers the fetches of the task as \<open>api\<close>.
\<close>

definition start_task :: "assets_api \<Rightarrow> 'c runner \<Rightarrow> 'c runner" where
  "start_task api s =
     (case queue s of
        [] \<Rightarrow> s
      | (checkRunId, subtopic, m) # q \<Rightarrow>
          (case processMessage_start api checkRunId subtopic m (s\<lparr>queue := q\<rparr>) of
             (Inl c, s') \<Rightarrow> s'\<lparr>busy := Some c\<rparr>
           | (Inr None, s') \<Rightarrow> s'
           | (Inr (Some e), s') \<Rightarrow> s'\<lparr>rejected := rejected s' @ [e]\<rparr>))"

text \<open>
  \<^verbatim>\<open>this.queue.start()\<close>: the queue is no longer paused and, inside the call, starts
  its oldest task if it has one.
\<close>

definition queue_start :: "assets_api \<Rightarrow> 'c runner \<Rightarrow> 'c runner" where
  "queue_start api s = start_task api (s\<lparr>queue_started := True\<rparr>)"

subsection \<open>The run coordinator\<close>

text \<open>What the dispatch hook \<^verbatim>\<open>scheduleChecks\<close> resolves with.\<close>

datatype 'c scheduled =
  Scheduled (s_testSessionId: "string option") (s_testResultIds: "(string \<times> string) list option")
    (s_checks: "(CheckRunId \<times> 'c) list")

text \<open>
  The collaborators of one call of \<^verbatim>\<open>run()\<close>: the outcome of
  \<^verbatim>\<open>SocketClient.connect()\<close>, the identifier \<^verbatim>\<open>uuid.v4()\<close> returns, the outcome of
  \<^verbatim>\<open>subscribe\<close> by topic and of the dispatch hook by run identifier, the messages
  the socket delivers while \<^verbatim>\<open>run()\<close> is waiting for the dispatch hook, and the
  asset service as it answers the task that \<^verbatim>\<open>queue.start()\<close> starts.
\<close>

record 'c world =
  connect :: "error + unit"
  uuid_v4 :: string
  subscribe :: "string \<Rightarrow> error + unit"
  arrivals :: "(CheckRunId \<times> string \<times> message) list"
  scheduleChecks :: "string \<Rightarrow> error + 'c scheduled"
  service :: assets_api

text \<open>The topic \<^verbatim>\<open>account/${accountId}/ad-hoc-check-results/${checkRunSuiteId}/+/+\<close>.\<close>

definition result_topic :: "string \<Rightarrow> string \<Rightarrow> string" where
  "result_topic accountId' checkRunSuiteId =
     ''account/'' @ accountId' @ ''/ad-hoc-check-results/'' @ checkRunSuiteId @ ''/+/+''"

definition configureResultListener ::
  "'c world \<Rightarrow> string \<Rightarrow> 'c runner \<Rightarrow> error option \<times> 'c runner" where
  "configureResultListener w checkRunSuiteId s =
     (let s1 = s\<lparr>listening := True\<rparr>;
          topic = result_topic (accountId s1) checkRunSuiteId;
          s2 = s1\<lparr>calls := calls s1 @ [Subscribe topic]\<rparr>
      in case subscribe w topic of
           Inl e \<Rightarrow> (Some e, s2)
         | Inr _ \<Rightarrow> (None, s2))"

text \<open>
  The \<^verbatim>\<open>try\<close> block of \<^verbatim>\<open>run()\<close> up to \<^verbatim>\<open>await allChecksFinished\<close>. The result
  is the exception thrown, if any, whether \<^verbatim>\<open>socketClient\<close> is set, and the state.
\<close>

definition run_try :: "'c world \<Rightarrow> 'c runner \<Rightarrow> error option \<times> bool \<times> 'c runner" where
  "run_try w s =
     (let s1 = s\<lparr>calls := calls s @ [Connect]\<rparr> in
      case connect w of
        Inl e \<Rightarrow> (Some e, False, s1)
      | Inr _ \<Rightarrow>
         (let checkRunSuiteId = uuid_v4 w in
          case configureResultListener w checkRunSuiteId s1 of
            (Some e, s2) \<Rightarrow> (Some e, True, s2)
          | (None, s2) \<Rightarrow>
             (let s3 = s2\<lparr>calls := calls s2 @ [ScheduleChecks checkRunSuiteId]\<rparr>;
                  s4 = foldl (\<lambda>s' m. on_message m s') s3 (arrivals w)
              in case scheduleChecks w checkRunSuiteId of
                   Inl e \<Rightarrow> (Some e, True, s4)
                 | Inr sched \<Rightarrow>
                    (let s5 = s4\<lparr>checks := Some (s_checks sched)\<rparr> in
                     case setAllTimeouts s5 of
                       (Some e, s6) \<Rightarrow> (Some e, True, s6)
                     | (None, s6) \<Rightarrow>
                        (case allChecksFinished s6 of
                           (Some e, s7) \<Rightarrow> (Some e, True, s7)
                         | (None, s7) \<Rightarrow>
                            (let s8 = queue_start (service w) s7;
                                 s9 = emit RUN_STARTED
                                        [ASession (s_testSessionId sched),
                                         AResultIds (s_testResultIds sched)] s8
                             in (None, True, s9\<lparr>testSessionId := s_testSessionId sched\<rparr>)))))))"

text \<open>The \<^verbatim>\<open>catch\<close> and \<^verbatim>\<open>finally\<close> blocks.\<close>

definition run_catch :: "error \<Rightarrow> 'c runner \<Rightarrow> 'c runner" where
  "run_catch err s = emit ERROR [AError err] (disableAllTimeouts s)"

definition socket_end :: "'c runner \<Rightarrow> 'c runner" where
  "socket_end s = s\<lparr>calls := calls s @ [End], listening := False\<rparr>"

definition run_finally :: "bool \<Rightarrow> 'c runner \<Rightarrow> 'c runner" where
  "run_finally socketClient s =
     (if socketClient then socket_end s else s)\<lparr>run_state := Returned\<rparr>"

text \<open>The rest of \<^verbatim>\<open>run()\<close> after \<^verbatim>\<open>await allChecksFinished\<close>.\<close>

definition run_resume :: "'c runner \<Rightarrow> 'c runner" where
  "run_resume s = run_finally True (emit RUN_FINISHED [ASession (testSessionId s)] s)"

text \<open>
  The runtime resumes \<^verbatim>\<open>run()\<close> as soon as the code that resolved the promise has
  returned, before any other timer or message is handled.
\<close>

definition microtasks :: "'c runner \<Rightarrow> 'c runner" where
  "microtasks s =
     (if run_state s = Awaiting \<and> promise s = Some True then run_resume s else s)"

definition run :: "'c world \<Rightarrow> 'c runner \<Rightarrow> 'c runner" where
  "run w s =
     (case run_try w s of
        (Some err, socketClient, s') \<Rightarrow> run_finally socketClient (run_catch err s')
      | (None, socketClient, s') \<Rightarrow> microtasks (s'\<lparr>run_state := Awaiting\<rparr>))"

subsection \<open>What happens while \<^verbatim>\<open>run()\<close> waits\<close>

text \<open>
  Four things can happen: the socket delivers a message; the started queue, when it is
  not busy, starts its oldest task (with the asset service answering as \<open>api\<close>); the
  fetches the suspended task awaits are settled and the task goes on to its end; or the
  runtime fires the pending timer with handle \<open>h\<close>. A handle that was cleared or has
  fired is not in the table and nothing happens. The queue runs one task at a time,
  oldest first; a rejected task is recorded and the queue goes on. After each of these
  the runtime resumes \<^verbatim>\<open>run()\<close> if its promise was resolved.
\<close>

datatype input = Message CheckRunId string message | Work assets_api | Settle | Expire nat

definition work :: "assets_api \<Rightarrow> 'c runner \<Rightarrow> 'c runner" where
  "work api s =
     (if queue_started s \<and> busy s = None then microtasks (start_task api s) else s)"

definition settle :: "'c runner \<Rightarrow> 'c runner" where
  "settle s =
     (case busy s of
        None \<Rightarrow> s
      | Some c \<Rightarrow>
          (case processMessage_resume c (s\<lparr>busy := None\<rparr>) of
             (None, s') \<Rightarrow> microtasks s'
           | (Some e, s') \<Rightarrow> microtasks (s'\<lparr>rejected := rejected s' @ [e]\<rparr>)))"

definition expire :: "nat \<Rightarrow> 'c runner \<Rightarrow> 'c runner" where
  "expire h s =
     (case map_of (timers s) h of
        None \<Rightarrow> s
      | Some t \<Rightarrow>
          microtasks (timeout_callback (cb_checkRunId t) (cb_check t)
                        (s\<lparr>timers := AList.delete h (timers s)\<rparr>)))"

fun step :: "'c runner \<Rightarrow> input \<Rightarrow> 'c runner" where
  "step s (Message checkRunId subtopic m) = on_message (checkRunId, subtopic, m) s"
| "step s (Work api) = work api s"
| "step s Settle = settle s"
| "step s (Expire h) = expire h s"

definition run_events :: "'c runner \<Rightarrow> input list \<Rightarrow> 'c runner" where
  "run_events s evs = foldl step s evs"

text \<open>The checks carried by the \<^verbatim>\<open>CHECK_FINISHED\<close> events of a trace, and the number
  of events of one kind.\<close>

definition finished_checks :: "'c emission list \<Rightarrow> 'c arg list list" where
  "finished_checks tr = map snd (filter (\<lambda>e. fst e = CHECK_FINISHED) tr)"

definition count_event :: "Events \<Rightarrow> 'c emission list \<Rightarrow> nat" where
  "count_event ev tr = length (filter (\<lambda>e. fst e = ev) tr)"

subsection \<open>Invariants of a run\<close>

text \<open>
  The state after the registry entry of \<open>k\<close> and the pending timer \<open>h\<close> are gone: what
  both \<^verbatim>\<open>disableTimeout\<close> and a fired timer leave behind.
\<close>

definition removed :: "CheckRunId \<Rightarrow> nat \<Rightarrow> 'c runner \<Rightarrow> 'c runner" where
  "removed k h s = s\<lparr>timeouts := AList.delete k (timeouts s), timers := AList.delete h (timers s)\<rparr>"

text \<open>
  The registry and the pending timers mirror each other: every registry entry names a
  pending timer whose callback is for that check, and every pending timer is the one
  registered for its check.
\<close>

definition registry :: "(CheckRunId \<times> 'c) list \<Rightarrow> 'c runner \<Rightarrow> bool" where
  "registry cs s \<longleftrightarrow>
     checks s = Some cs \<and> distinct (map fst cs) \<and>
     distinct (map fst (timeouts s)) \<and> distinct (map fst (timers s)) \<and>
     (\<forall>(k, h) \<in> set (timeouts s). \<exists>c. (k, c) \<in> set cs
         \<and> (h, Timer (seconds_value (timeout s) * 1000) k c) \<in> set (timers s)) \<and>
     (\<forall>(h, t) \<in> set (timers s). (cb_checkRunId t, h) \<in> set (timeouts s))"

text \<open>
  What the \<^verbatim>\<open>CHECK_FINISHED\<close> events of a run are expected to carry, one for each
  check, and what those still to come would carry: one for each registry entry and one
  for the check of the suspended task.
\<close>

definition expected :: "(CheckRunId \<times> 'c) list \<Rightarrow> 'c arg list multiset" where
  "expected cs = mset (map (\<lambda>(k, c). [ACheck (Some c)]) cs)"

definition in_flight :: "'c runner \<Rightarrow> 'c arg list list" where
  "in_flight s = (case busy s of None \<Rightarrow> [] | Some c \<Rightarrow> [[ACheck (s_check c)]])"

definition outstanding :: "(CheckRunId \<times> 'c) list \<Rightarrow> 'c runner \<Rightarrow> 'c arg list multiset" where
  "outstanding cs s =
     mset (map (\<lambda>(k, h). [ACheck (map_of cs k)]) (timeouts s)) + mset (in_flight s)"

text \<open>
  The completion tracker: the counter is the number of \<^verbatim>\<open>CHECK_FINISHED\<close> events;
  the checks finished and those outstanding are together among the checks of the run,
  and with the rejected tasks they are as many; the promise is resolved, by one call
  of \<^verbatim>\<open>resolve()\<close>, exactly when the counter has reached the number of checks; and
  \<^verbatim>\<open>RUN_FINISHED\<close> is emitted when \<^verbatim>\<open>run()\<close> returns, as the last event, and at no
  other time.
\<close>

definition tracker :: "(CheckRunId \<times> 'c) list \<Rightarrow> 'c runner \<Rightarrow> bool" where
  "tracker cs s \<longleftrightarrow>
     finished_listener s = Some (length cs) \<and>
     finishedCheckCount s = length (finished_checks (emitted s)) \<and>
     mset (finished_checks (emitted s)) + outstanding cs s \<subseteq># expected cs \<and>
     length (finished_checks (emitted s)) + size (outstanding cs s) + length (rejected s)
       = length cs \<and>
     promise s = Some (length (finished_checks (emitted s)) = length cs) \<and>
     resolve_calls s = (if length (finished_checks (emitted s)) = length cs then 1 else 0) \<and>
     (if run_state s = Returned
      then length (finished_checks (emitted s)) = length cs \<and>
           (\<exists>pre. emitted s = pre @ [(RUN_FINISHED, [ASession (testSessionId s)])]
                 \<and> count_event RUN_FINISHED pre = 0)
      else count_event RUN_FINISHED (emitted s) = 0)"

text \<open>
  The tracker while one check is being finished: its registry entry is gone, or its
  task was taken up again, and its events are not emitted yet.
\<close>

definition owing :: "(CheckRunId \<times> 'c) list \<Rightarrow> 'c arg list \<Rightarrow> 'c runner \<Rightarrow> bool" where
  "owing cs x s \<longleftrightarrow>
     finished_listener s = Some (length cs) \<and>
     finishedCheckCount s = length (finished_checks (emitted s)) \<and>
     add_mset x (mset (finished_checks (emitted s)) + outstanding cs s) \<subseteq># expected cs \<and>
     Suc (length (finished_checks (emitted s)) + size (outstanding cs s) + length (rejected s))
       = length cs \<and>
     promise s = Some False \<and> resolve_calls s = 0 \<and> run_state s \<noteq> Returned \<and>
     count_event RUN_FINISHED (emitted s) = 0"

text \<open>\<^verbatim>\<open>run()\<close> is not waiting for a promise that is resolved.\<close>

definition settled :: "(CheckRunId \<times> 'c) list \<Rightarrow> 'c runner \<Rightarrow> bool" where
  "settled cs s \<longleftrightarrow>
     (run_state s = Awaiting \<longrightarrow> length (finished_checks (emitted s)) \<noteq> length cs)"


text \<open>
  A new runner when \<^verbatim>\<open>run()\<close> has connected, subscribed, dispatched the checks \<open>cs\<close>,
  armed their timers and called \<^verbatim>\<open>allChecksFinished\<close>, before \<^verbatim>\<open>queue.start()\<close>.
\<close>

definition armed ::
  "'c world \<Rightarrow> string \<Rightarrow> seconds \<Rightarrow> bool \<Rightarrow> (CheckRunId \<times> 'c) list \<Rightarrow> 'c runner" where
  "armed w a t v cs =
     \<lparr> checks = Some cs, timeouts = map (\<lambda>(h, k, c). (k, h)) (enumerate 0 cs),
       accountId = a, timeout = t, verbose = v, queue = arrivals w, queue_started = False,
       busy = None, rejected = [], emitted = [],
       finished_listener = (if cs = [] then None else Some (length cs)),
       finishedCheckCount = 0, resolve_calls = 0, promise = Some (cs = []),
       timers = map (\<lambda>(h, k, c). (h, Timer (seconds_value t * 1000) k c)) (enumerate 0 cs),
       next_handle = length cs, listening = True, testSessionId = None,
       run_state = NotRunning,
       calls = [Connect, Subscribe (result_topic a (uuid_v4 w)), ScheduleChecks (uuid_v4 w)] \<rparr>"

subsection \<open>A concrete run\<close>

text \<open>
  Two checks \<open>a\<close> and \<open>b\<close> with a timeout of five seconds, a \<^verbatim>\<open>run-end\<close> payload
  that reports failures and names every kind of artifact, an \<^verbatim>\<open>error\<close> payload, and
  an asset service whose three calls can each be made to fail.
\<close>

definition ex_assets :: result_assets where
  "ex_assets =
     \<lparr> region = ''eu'', logPath = Some ''logs/a'', checkRunDataPath = Some ''data/a'',
       playwrightTestTraceFiles = Some [''trace/a''],
       playwrightTestVideoFiles = Some [''video/a''] \<rparr>"

definition ex_result :: result where
  "ex_result =
     \<lparr> assets = Some ex_assets, hasFailures = True, logs = None, checkRunData = None,
       traceFilesUrls = None, videoFilesUrls = None \<rparr>"

definition ex_run_end :: message where
  "ex_run_end = \<lparr> result = Some ex_result, body = [] \<rparr>"

definition ex_error :: message where
  "ex_error = \<lparr> result = None, body = ''boom'' \<rparr>"

definition ex_api :: "bool \<Rightarrow> bool \<Rightarrow> bool \<Rightarrow> assets_api" where
  "ex_api logs_ok data_ok links_ok =
     \<lparr> getLogs = (\<lambda>r p. if logs_ok then Inr ''log'' else Inl (Failure ''no logs'')),
       getCheckRunData = (\<lambda>r p. if data_ok then Inr ''data'' else Inl (Failure ''no data'')),
       getAssetsLink = (\<lambda>r p. if links_ok then Inr (''https://'' @ p) else Inl (Failure ''no link'')) \<rparr>"

definition ex_world :: "(error + string scheduled) \<Rightarrow> string world" where
  "ex_world dispatch =
     \<lparr> connect = Inr (), uuid_v4 = ''u1'', subscribe = (\<lambda>topic. Inr ()),
       arrivals = [(''a'', ''run-start'', ex_error)],
       scheduleChecks = (\<lambda>checkRunSuiteId. dispatch),
       service = ex_api True True True \<rparr>"

definition ex_checks :: "(CheckRunId \<times> string) list" where
  "ex_checks = [(''a'', ''check A''), (''b'', ''check B'')]"

definition ex_runner :: "string runner" where
  "ex_runner = run (ex_world (Inr (Scheduled (Some ''s1'') None ex_checks))) (constructor ''acc'' (Seconds 5) False)"



section \<open>Properties\<close>

subsection \<open>Frame lemmas\<close>

lemma emit_emitted [simp]: "emitted (emit ev args s) = emitted s @ [(ev, args)]"
  by (simp add: emit_def on_check_finished_def resolve_def Let_def split: option.splits)

lemma emit_frame [simp]:
  "timeouts (emit ev args s) = timeouts s"
  "timers (emit ev args s) = timers s"
  "checks (emit ev args s) = checks s"
  "timeout (emit ev args s) = timeout s"
  "verbose (emit ev args s) = verbose s"
  "accountId (emit ev args s) = accountId s"
  "queue (emit ev args s) = queue s"
  "queue_started (emit ev args s) = queue_started s"
  "next_handle (emit ev args s) = next_handle s"
  "listening (emit ev args s) = listening s"
  "testSessionId (emit ev args s) = testSessionId s"
  "run_state (emit ev args s) = run_state s"
  "calls (emit ev args s) = calls s"
  "finished_listener (emit ev args s) = finished_listener s"
  "busy (emit ev args s) = busy s"
  "rejected (emit ev args s) = rejected s"
  by (simp_all add: emit_def on_check_finished_def resolve_def Let_def split: option.splits)

lemma emit_other [simp]:
  "ev \<noteq> CHECK_FINISHED \<Longrightarrow> emit ev args s = s\<lparr>emitted := emitted s @ [(ev, args)]\<rparr>"
  by (simp add: emit_def)

lemma disableTimeout_fields [simp]:
  "timeouts (disableTimeout k s) = AList.delete k (timeouts s)"
  "timers (disableTimeout k s) =
     (case map_of (timeouts s) k of None \<Rightarrow> timers s | Some h \<Rightarrow> AList.delete h (timers s))"
  "emitted (disableTimeout k s) = emitted s"
  "checks (disableTimeout k s) = checks s"
  "verbose (disableTimeout k s) = verbose s"
  "timeout (disableTimeout k s) = timeout s"
  "queue (disableTimeout k s) = queue s"
  "queue_started (disableTimeout k s) = queue_started s"
  "run_state (disableTimeout k s) = run_state s"
  "promise (disableTimeout k s) = promise s"
  "finished_listener (disableTimeout k s) = finished_listener s"
  "finishedCheckCount (disableTimeout k s) = finishedCheckCount s"
  "resolve_calls (disableTimeout k s) = resolve_calls s"
  "listening (disableTimeout k s) = listening s"
  "testSessionId (disableTimeout k s) = testSessionId s"
  "calls (disableTimeout k s) = calls s"
  "next_handle (disableTimeout k s) = next_handle s"
  "busy (disableTimeout k s) = busy s"
  "rejected (disableTimeout k s) = rejected s"
  by (simp_all add: disableTimeout_def clearTimeout_def Let_def split: option.splits)

lemma microtasks_frame [simp]:
  "timeouts (microtasks s) = timeouts s"
  "timers (microtasks s) = timers s"
  "checks (microtasks s) = checks s"
  "queue (microtasks s) = queue s"
  "queue_started (microtasks s) = queue_started s"
  "timeout (microtasks s) = timeout s"
  "verbose (microtasks s) = verbose s"
  "next_handle (microtasks s) = next_handle s"
  "testSessionId (microtasks s) = testSessionId s"
  "finished_listener (microtasks s) = finished_listener s"
  "finishedCheckCount (microtasks s) = finishedCheckCount s"
  "resolve_calls (microtasks s) = resolve_calls s"
  "promise (microtasks s) = promise s"
  "busy (microtasks s) = busy s"
  "rejected (microtasks s) = rejected s"
  by (simp_all add: microtasks_def run_resume_def run_finally_def socket_end_def)

lemma microtasks_emitted:
  "emitted (microtasks s) =
     emitted s @ (if run_state s = Awaiting \<and> promise s = Some True
                  then [(RUN_FINISHED, [ASession (testSessionId s)])] else [])"
  by (simp add: microtasks_def run_resume_def run_finally_def socket_end_def)

lemma microtasks_run_state:
  "run_state (microtasks s) =
     (if run_state s = Awaiting \<and> promise s = Some True then Returned else run_state s)"
  by (simp add: microtasks_def run_resume_def run_finally_def socket_end_def)

lemma map_of_delete_same [simp]: "map_of (AList.delete k al) k = None"
  by (simp add: delete_conv')

lemma in_flight_frame [simp]:
  "in_flight (emit ev args s) = in_flight s"
  "in_flight (microtasks s) = in_flight s"
  "in_flight (disableTimeout k s) = in_flight s"
  by (simp_all add: in_flight_def)

subsection \<open>Arming the timers\<close>

lemma update_fresh: "k \<notin> fst ` set al \<Longrightarrow> AList.update k v al = al @ [(k, v)]"
  by (induction al) auto

lemma arm_eq:
  "k \<notin> fst ` set (timeouts s) \<Longrightarrow>
   arm s (k, c) = s\<lparr>timers := timers s @ [(next_handle s, Timer (seconds_value (timeout s) * 1000) k c)],
                    next_handle := Suc (next_handle s),
                    timeouts := timeouts s @ [(k, next_handle s)]\<rparr>"
  by (simp add: arm_def setTimeout_def update_fresh)

lemma foldl_arm:
  "distinct (map fst cs) \<Longrightarrow> fst ` set cs \<inter> fst ` set (timeouts s) = {} \<Longrightarrow>
   foldl arm s cs =
     s\<lparr>timers := timers s @ map (\<lambda>(h, k, c). (h, Timer (seconds_value (timeout s) * 1000) k c))
                                (enumerate (next_handle s) cs),
       next_handle := next_handle s + length cs,
       timeouts := timeouts s @ map (\<lambda>(h, k, c). (k, h)) (enumerate (next_handle s) cs)\<rparr>"
proof (induction cs arbitrary: s)
  case Nil
  then show ?case by simp
next
  case (Cons x cs)
  obtain k c where x: "x = (k, c)" by (cases x)
  from Cons.prems x have fresh: "k \<notin> fst ` set (timeouts s)" by auto
  have a: "arm s (k, c) = s\<lparr>timers := timers s @ [(next_handle s, Timer (seconds_value (timeout s) * 1000) k c)],
                    next_handle := Suc (next_handle s),
                    timeouts := timeouts s @ [(k, next_handle s)]\<rparr>"
    by (rule arm_eq [OF fresh])
  have d: "distinct (map fst cs)" using Cons.prems by simp
  have disj: "fst ` set cs \<inter> fst ` set (timeouts (arm s (k, c))) = {}"
    using Cons.prems x by (auto simp add: a)
  show ?case
    unfolding x by (simp add: Cons.IH [OF d disj]) (simp add: a)
qed

subsection \<open>Traces and association lists\<close>

lemma finished_checks_append [simp]:
  "finished_checks (xs @ ys) = finished_checks xs @ finished_checks ys"
  by (simp add: finished_checks_def)

lemma finished_checks_simps [simp]:
  "finished_checks [] = []"
  "finished_checks ((ev, x) # tr) =
     (if ev = CHECK_FINISHED then x # finished_checks tr else finished_checks tr)"
  by (simp_all add: finished_checks_def)

lemma count_event_append [simp]:
  "count_event ev (xs @ ys) = count_event ev xs + count_event ev ys"
  by (simp add: count_event_def)

lemma count_event_simps [simp]:
  "count_event ev [] = 0"
  "count_event ev ((ev', x) # tr) =
     (if ev' = ev then Suc (count_event ev tr) else count_event ev tr)"
  by (simp_all add: count_event_def)


lemma set_delete: "set (AList.delete k al) = {p \<in> set al. fst p \<noteq> k}"
  by (auto simp add: AList.delete_eq)

lemma mset_map_delete:
  "distinct (map fst al) \<Longrightarrow> (k, h) \<in> set al \<Longrightarrow>
   mset (map f al) = add_mset (f (k, h)) (mset (map f (AList.delete k al)))"
proof (induction al)
  case Nil
  then show ?case by simp
next
  case (Cons p al)
  show ?case
  proof (cases "p = (k, h)")
    case True
    with Cons.prems have "k \<notin> fst ` set al" by auto
    then have "AList.delete k al = al"
      by (induction al) (auto simp add: AList.delete_eq)
    with True show ?thesis by (simp add: AList.delete_eq)
  next
    case False
    with Cons.prems have m: "(k, h) \<in> set al" by auto
    then have "k \<in> fst ` set al" by force
    with Cons.prems have "fst p \<noteq> k" by auto
    with Cons m show ?thesis by (auto simp add: AList.delete_eq)
  qed
qed

lemma mset_map_delete_subset:
  "mset (map f (AList.delete k al)) \<subseteq># mset (map f al)"
  by (induction al) (auto simp add: AList.delete_eq intro: subset_mset.order_trans)


subsection \<open>The registry\<close>

lemma registry_no_timers:
  "registry cs s \<Longrightarrow> timeouts s = [] \<Longrightarrow> timers s = []"
  by (cases "timers s") (auto simp add: registry_def)

lemma registry_cong:
  "checks s' = checks s \<Longrightarrow> timeouts s' = timeouts s \<Longrightarrow> timers s' = timers s \<Longrightarrow>
   timeout s' = timeout s \<Longrightarrow> registry cs s' = registry cs s"
  by (simp add: registry_def)

lemma removed_fields [simp]:
  "timeouts (removed k h s) = AList.delete k (timeouts s)"
  "timers (removed k h s) = AList.delete h (timers s)"
  "emitted (removed k h s) = emitted s"
  "checks (removed k h s) = checks s"
  "timeout (removed k h s) = timeout s"
  "finished_listener (removed k h s) = finished_listener s"
  "finishedCheckCount (removed k h s) = finishedCheckCount s"
  "promise (removed k h s) = promise s"
  "resolve_calls (removed k h s) = resolve_calls s"
  "run_state (removed k h s) = run_state s"
  "testSessionId (removed k h s) = testSessionId s"
  "busy (removed k h s) = busy s"
  "rejected (removed k h s) = rejected s"
  "in_flight (removed k h s) = in_flight s"
  "verbose (removed k h s) = verbose s"
  "queue (removed k h s) = queue s"
  by (simp_all add: removed_def in_flight_def)

lemma removed_alt:
  "s\<lparr>timers := AList.delete h (timers s), timeouts := AList.delete k (timeouts s)\<rparr> = removed k h s"
  by (simp add: removed_def)

lemma disableTimeout_removed:
  "map_of (timeouts s) k = Some h \<Longrightarrow> disableTimeout k s = removed k h s"
  by (simp add: disableTimeout_def clearTimeout_def removed_def)

lemma registry_removed:
  assumes "registry cs s" and "(k, h) \<in> set (timeouts s)"
  shows "registry cs (removed k h s)"
proof -
  from assms obtain c where c: "(h, Timer (seconds_value (timeout s) * 1000) k c) \<in> set (timers s)"
    by (fastforce simp add: registry_def)
  have dk: "distinct (map fst (timeouts s))" and dh: "distinct (map fst (timers s))"
    using assms(1) by (simp_all add: registry_def)
  have a: "\<And>k' h'. (k', h') \<in> set (timeouts s) \<Longrightarrow> k' \<noteq> k \<Longrightarrow> h' \<noteq> h"
  proof
    fix k' h' assume m: "(k', h') \<in> set (timeouts s)" and "k' \<noteq> k" and "h' = h"
    from m assms(1) obtain c' where "(h', Timer (seconds_value (timeout s) * 1000) k' c') \<in> set (timers s)"
      by (fastforce simp add: registry_def)
    with c \<open>h' = h\<close> dh have "Timer (seconds_value (timeout s) * 1000) k' c' = Timer (seconds_value (timeout s) * 1000) k c"
      by (metis eq_key_imp_eq_value)
    with \<open>k' \<noteq> k\<close> show False by simp
  qed
  have b: "\<And>h' t. (h', t) \<in> set (timers s) \<Longrightarrow> h' \<noteq> h \<Longrightarrow> cb_checkRunId t \<noteq> k"
  proof
    fix h' t assume m: "(h', t) \<in> set (timers s)" and "h' \<noteq> h" and "cb_checkRunId t = k"
    from m assms(1) have "(cb_checkRunId t, h') \<in> set (timeouts s)"
      by (fastforce simp add: registry_def)
    with assms(2) \<open>cb_checkRunId t = k\<close> dk have "h' = h"
      by (metis eq_key_imp_eq_value)
    with \<open>h' \<noteq> h\<close> show False by simp
  qed
  show ?thesis
    using assms(1) a b
    by (fastforce simp add: registry_def set_delete distinct_delete)
qed

lemma registry_emit: "registry cs (emit ev args s) = registry cs s"
  by (rule registry_cong) (simp_all del: emit_other)

lemma registry_microtasks: "registry cs (microtasks s) = registry cs s"
  by (rule registry_cong) simp_all

subsection \<open>The completion tracker\<close>

lemma outstanding_frame [simp]:
  "outstanding cs (emit ev args s) = outstanding cs s"
  "outstanding cs (microtasks s) = outstanding cs s"
  by (simp_all add: outstanding_def)

lemma outstanding_cong:
  "timeouts s' = timeouts s \<Longrightarrow> busy s' = busy s \<Longrightarrow> outstanding cs s' = outstanding cs s"
  by (simp add: outstanding_def in_flight_def)

lemma outstanding_empty:
  "outstanding cs s = {#} \<longleftrightarrow> timeouts s = [] \<and> busy s = None"
  by (auto simp add: outstanding_def in_flight_def split: option.splits)

lemma outstanding_removed:
  assumes "distinct (map fst (timeouts s))" and "(k, h) \<in> set (timeouts s)"
  shows "outstanding cs s = add_mset [ACheck (map_of cs k)] (outstanding cs (removed k h s))"
  using mset_map_delete [OF assms, of "\<lambda>(k, h). [ACheck (map_of cs k)]"]
  by (simp add: outstanding_def)


lemma outstanding_suspend:
  "busy s = None \<Longrightarrow>
   outstanding cs (s\<lparr>busy := Some (Suspended c r)\<rparr>) = add_mset [ACheck c] (outstanding cs s)"
  by (simp add: outstanding_def in_flight_def)

lemma outstanding_rejected [simp]:
  "outstanding cs (s\<lparr>rejected := r\<rparr>) = outstanding cs s"
  by (simp add: outstanding_def in_flight_def)

lemma tracker_pending:
  assumes "tracker cs s" and "timeouts s \<noteq> [] \<or> busy s \<noteq> None"
  shows "length (finished_checks (emitted s)) \<noteq> length cs" and "run_state s \<noteq> Returned"
proof -
  from assms(2) have "outstanding cs s \<noteq> {#}" by (simp add: outstanding_empty)
  then have "0 < size (outstanding cs s)" by (simp add: nonempty_has_size)
  moreover from assms(1) have
    "length (finished_checks (emitted s)) + size (outstanding cs s) + length (rejected s)
       = length cs"
    unfolding tracker_def by blast
  ultimately show n: "length (finished_checks (emitted s)) \<noteq> length cs" by linarith
  from assms(1) have "run_state s = Returned \<longrightarrow> length (finished_checks (emitted s)) = length cs"
    unfolding tracker_def by presburger
  with n show "run_state s \<noteq> Returned" by blast
qed

lemma tracker_done:
  assumes "tracker cs s" and "length (finished_checks (emitted s)) = length cs"
  shows "timeouts s = []" and "busy s = None" and "rejected s = []"
proof -
  from assms(1) have
    "length (finished_checks (emitted s)) + size (outstanding cs s) + length (rejected s)
       = length cs"
    unfolding tracker_def by blast
  with assms(2) have "outstanding cs s = {#}" and r: "rejected s = []" by simp_all
  then show "timeouts s = []" and "busy s = None" by (simp_all add: outstanding_empty)
  from r show "rejected s = []" .
qed

lemma tracker_cong:
  "emitted s' = emitted s \<Longrightarrow> timeouts s' = timeouts s \<Longrightarrow> busy s' = busy s \<Longrightarrow>
   rejected s' = rejected s \<Longrightarrow>
   finished_listener s' = finished_listener s \<Longrightarrow> finishedCheckCount s' = finishedCheckCount s \<Longrightarrow>
   promise s' = promise s \<Longrightarrow> resolve_calls s' = resolve_calls s \<Longrightarrow>
   run_state s' = run_state s \<Longrightarrow> testSessionId s' = testSessionId s \<Longrightarrow>
   tracker cs s' = tracker cs s"
  by (simp add: tracker_def outstanding_cong [of s' s])

lemma owing_cong:
  "emitted s' = emitted s \<Longrightarrow> timeouts s' = timeouts s \<Longrightarrow> busy s' = busy s \<Longrightarrow>
   rejected s' = rejected s \<Longrightarrow>
   finished_listener s' = finished_listener s \<Longrightarrow> finishedCheckCount s' = finishedCheckCount s \<Longrightarrow>
   promise s' = promise s \<Longrightarrow> resolve_calls s' = resolve_calls s \<Longrightarrow>
   run_state s' = run_state s \<Longrightarrow>
   owing cs x s' = owing cs x s"
  by (simp add: owing_def outstanding_cong [of s' s])

text \<open>A check is taken from the registry, or the suspended task is taken up again.\<close>

lemma tracker_owing:
  assumes t: "tracker cs s" and o: "outstanding cs s = add_mset x (outstanding cs s')"
    and f: "emitted s' = emitted s" "rejected s' = rejected s"
      "finished_listener s' = finished_listener s" "finishedCheckCount s' = finishedCheckCount s"
      "promise s' = promise s" "resolve_calls s' = resolve_calls s" "run_state s' = run_state s"
  shows "owing cs x s'"
proof -
  from o have "outstanding cs s \<noteq> {#}" by simp
  then have "timeouts s \<noteq> [] \<or> busy s \<noteq> None" by (simp add: outstanding_empty)
  from tracker_pending [OF t this]
  have p: "length (finished_checks (emitted s)) \<noteq> length cs" "run_state s \<noteq> Returned" .
  from t have a: "mset (finished_checks (emitted s)) + outstanding cs s \<subseteq># expected cs"
    and e: "length (finished_checks (emitted s)) + size (outstanding cs s) + length (rejected s)
              = length cs"
    and l: "finished_listener s = Some (length cs)"
      "finishedCheckCount s = length (finished_checks (emitted s))"
    and pr: "promise s = Some (length (finished_checks (emitted s)) = length cs)"
      "resolve_calls s = (if length (finished_checks (emitted s)) = length cs then 1 else 0)"
    unfolding tracker_def by blast+
  from t p(2) have c: "count_event RUN_FINISHED (emitted s) = 0"
    unfolding tracker_def by presburger
  from a have a': "add_mset x (mset (finished_checks (emitted s)) + outstanding cs s') \<subseteq># expected cs"
    unfolding o by simp
  from e have e': "Suc (length (finished_checks (emitted s)) + size (outstanding cs s')
      + length (rejected s)) = length cs"
    unfolding o by simp
  from a' e' l pr p c show ?thesis
    unfolding owing_def f by simp
qed

lemma owing_removed:
  assumes t: "tracker cs s" and d: "distinct (map fst (timeouts s))"
    and m: "(k, h) \<in> set (timeouts s)"
  shows "owing cs [ACheck (map_of cs k)] (removed k h s)"
  by (rule tracker_owing [OF t outstanding_removed [OF d m]]) simp_all


lemma owing_emit_other:
  assumes "owing cs x s" and "ev \<noteq> CHECK_FINISHED" and "ev \<noteq> RUN_FINISHED"
  shows "owing cs x (emit ev args s)"
  using assms by (simp add: owing_def outstanding_cong [of "s\<lparr>emitted := emitted s @ [(ev, args)]\<rparr>" s])

text \<open>The check is finished, its task is rejected, or its task is suspended.\<close>

lemma emit_finished:
  "finished_listener s = Some n \<Longrightarrow>
   emit CHECK_FINISHED x s =
     (if Suc (finishedCheckCount s) = n
      then s\<lparr>emitted := emitted s @ [(CHECK_FINISHED, x)],
             finishedCheckCount := Suc (finishedCheckCount s),
             resolve_calls := Suc (resolve_calls s), promise := Some True\<rparr>
      else s\<lparr>emitted := emitted s @ [(CHECK_FINISHED, x)],
             finishedCheckCount := Suc (finishedCheckCount s)\<rparr>)"
  by (simp add: emit_def on_check_finished_def resolve_def Let_def)

lemma emit_finished_fields:
  assumes "finished_listener s = Some n"
  shows "finishedCheckCount (emit CHECK_FINISHED x s) = Suc (finishedCheckCount s)"
    and "promise (emit CHECK_FINISHED x s) =
           (if Suc (finishedCheckCount s) = n then Some True else promise s)"
    and "resolve_calls (emit CHECK_FINISHED x s) =
           (if Suc (finishedCheckCount s) = n then Suc (resolve_calls s) else resolve_calls s)"
  by (simp_all add: emit_finished [OF assms])

lemma emit_other_fields:
  assumes "ev \<noteq> CHECK_FINISHED"
  shows "finishedCheckCount (emit ev args s) = finishedCheckCount s"
    and "promise (emit ev args s) = promise s"
    and "resolve_calls (emit ev args s) = resolve_calls s"
  using assms by (simp_all add: emit_def)

lemma owing_finished:
  assumes o: "owing cs x s"
  shows "tracker cs (emit CHECK_FINISHED x s)"
proof -
  from o have l: "finished_listener s = Some (length cs)" by (simp add: owing_def)
  from o show ?thesis
    unfolding tracker_def owing_def
    by (simp add: emit_finished_fields [OF l] add.commute)
qed

lemma owing_rejected:
  assumes o: "owing cs x s"
  shows "tracker cs (s\<lparr>rejected := rejected s @ [e]\<rparr>)"
proof -
  from o have "add_mset x (mset (finished_checks (emitted s)) + outstanding cs s) \<subseteq># expected cs"
    unfolding owing_def by blast
  then have "mset (finished_checks (emitted s)) + outstanding cs s \<subseteq># expected cs"
    by (rule mset_subset_eq_insertD [THEN conjunct2, THEN subset_mset.less_imp_le])
  with o show ?thesis
    unfolding tracker_def owing_def by auto
qed

lemma owing_suspended:
  assumes o: "owing cs [ACheck c] s" and b: "busy s = None"
  shows "tracker cs (s\<lparr>busy := Some (Suspended c r)\<rparr>)"
  using o unfolding tracker_def owing_def
  by (auto simp add: outstanding_suspend [OF b])

lemma tracker_emit_other:
  assumes "tracker cs s" and "run_state s \<noteq> Returned"
    and "ev \<noteq> CHECK_FINISHED" and "ev \<noteq> RUN_FINISHED"
  shows "tracker cs (emit ev args s)"
  using assms
  by (simp add: tracker_def outstanding_cong [of "s\<lparr>emitted := emitted s @ [(ev, args)]\<rparr>" s])

lemma tracker_microtasks:
  assumes "tracker cs s"
  shows "tracker cs (microtasks s)" and "settled cs (microtasks s)"
proof -
  show "settled cs (microtasks s)"
    using assms
    by (auto simp add: settled_def microtasks_emitted microtasks_run_state tracker_def)
  show "tracker cs (microtasks s)"
  proof (cases "run_state s = Awaiting \<and> promise s = Some True")
    case False
    then have "microtasks s = s" by (auto simp add: microtasks_def)
    with assms show ?thesis by simp
  next
    case True
    with assms have n: "length (finished_checks (emitted s)) = length cs"
      and c: "count_event RUN_FINISHED (emitted s) = 0"
      by (simp_all add: tracker_def)
    have "\<exists>pre. emitted (microtasks s) =
             pre @ [(RUN_FINISHED, [ASession (testSessionId (microtasks s))])]
           \<and> count_event RUN_FINISHED pre = 0"
      using True c by (intro exI [of _ "emitted s"]) (simp add: microtasks_emitted)
    with assms True n show ?thesis
      unfolding tracker_def
      by (auto simp add: microtasks_emitted microtasks_run_state)
  qed
qed

lemma settled_idle: "settled cs s \<Longrightarrow> tracker cs s \<Longrightarrow> microtasks s = s"
  by (auto simp add: settled_def tracker_def microtasks_def)

subsection \<open>One message, cut at its awaits\<close>

lemma processMessage_phases:
  "processMessage api k sub m s =
     (case processMessage_start api k sub m s of
        (Inl c, s') \<Rightarrow> processMessage_resume c s'
      | (Inr e, s') \<Rightarrow> (e, s'))"
  by (auto simp add: processMessage_start_def processMessage_resume_def processMessage_def Let_def
        split: option.splits sum.splits prod.splits)

lemma run_end_result_no_await:
  "\<not> reaches_await v m \<Longrightarrow> run_end_result api v m = Inr res \<Longrightarrow> result m = Some res"
  by (auto simp add: reaches_await_def run_end_result_def fetch_logs_def fetch_checkRunData_def
        fetch_links_def split: option.splits sum.splits if_splits)

lemma processMessage_start_cases:
  assumes "checks s = Some cs"
  shows "processMessage_start api k sub m s = (Inr None, s)
       \<or> (\<exists>h. (k, h) \<in> set (timeouts s)
            \<and> (processMessage_start api k sub m s =
                  (Inr None, emit CHECK_INPROGRESS [ACheck (map_of cs k)] s)
               \<or> (\<exists>r. processMessage_start api k sub m s =
                         (Inl (Suspended (map_of cs k) r), removed k h s))
               \<or> (\<exists>e. processMessage_start api k sub m s = (Inr (Some e), removed k h s))
               \<or> (\<exists>ev args. ev \<noteq> CHECK_FINISHED \<and> ev \<noteq> RUN_FINISHED
                    \<and> processMessage_start api k sub m s =
                        (Inr None,
                         emit CHECK_FINISHED [ACheck (map_of cs k)]
                           (emit ev args (removed k h s))))))"
proof (cases "map_of (timeouts s) k")
  case None
  with assms show ?thesis by (simp add: processMessage_start_def processMessage_def)
next
  case (Some h)
  then have m: "(k, h) \<in> set (timeouts s)" by (rule map_of_SomeD)
  have fin: "\<And>ev args. ev \<noteq> CHECK_FINISHED \<Longrightarrow> ev \<noteq> RUN_FINISHED \<Longrightarrow>
      processMessage_start api k sub m s =
        (Inr None, emit CHECK_FINISHED [ACheck (map_of cs k)] (emit ev args (removed k h s)))
      \<Longrightarrow> ?thesis"
    using m by blast
  show ?thesis
  proof (cases "sub = ''run-start''")
    case True
    with Some assms m show ?thesis
      by (auto simp add: processMessage_start_def processMessage_def)
  next
    case ns: False
    show ?thesis
    proof (cases "sub = ''run-end''")
      case True
      show ?thesis
      proof (cases "reaches_await (verbose s) m")
        case True
        with Some assms \<open>sub = ''run-end''\<close> m show ?thesis
          by (auto simp add: processMessage_start_def disableTimeout_removed)
      next
        case False
        show ?thesis
        proof (cases "run_end_result api (verbose s) m")
          case (Inl e)
          with False Some assms \<open>sub = ''run-end''\<close>
          have "processMessage_start api k sub m s = (Inr (Some e), removed k h s)"
            by (simp add: processMessage_start_def processMessage_def disableTimeout_removed Let_def)
          with m show ?thesis by blast
        next
          case (Inr res)
          with False Some assms \<open>sub = ''run-end''\<close>
          have "processMessage_start api k sub m s =
              (Inr None, emit CHECK_FINISHED [ACheck (map_of cs k)]
                 (emit CHECK_SUCCESSFUL [ACheck (map_of cs k), AResult res] (removed k h s)))"
            by (simp add: processMessage_start_def processMessage_def disableTimeout_removed Let_def
                  del: emit_other)
          then show ?thesis by (intro fin [of CHECK_SUCCESSFUL]) simp_all
        qed
      qed
    next
      case ne: False
      show ?thesis
      proof (cases "sub = ''error''")
        case True
        with ne Some assms
        have "processMessage_start api k sub m s =
             (Inr None, emit CHECK_FINISHED [ACheck (map_of cs k)]
               (emit CHECK_FAILED [ACheck (map_of cs k), AMessage m] (removed k h s)))"
          by (simp add: processMessage_start_def processMessage_def disableTimeout_removed Let_def
                del: emit_other)
        then show ?thesis by (intro fin [of CHECK_FAILED]) simp_all
      next
        case False
        with ns ne Some assms show ?thesis
          by (simp add: processMessage_start_def processMessage_def)
      qed
    qed
  qed
qed

lemma expire_eq:
  assumes r: "registry cs s" and t: "map_of (timers s) h = Some t"
  shows "\<exists>k c. t = Timer (seconds_value (timeout s) * 1000) k c \<and> (k, h) \<in> set (timeouts s)
           \<and> map_of cs k = Some c
           \<and> expire h s =
               microtasks (emit CHECK_FINISHED [ACheck (map_of cs k)]
                 (emit CHECK_FAILED [ACheck (Some c), AText (timeout_message (timeout s))]
                    (removed k h s)))"
proof -
  from t have ht: "(h, t) \<in> set (timers s)" by (rule map_of_SomeD)
  with r have kh: "(cb_checkRunId t, h) \<in> set (timeouts s)"
    by (fastforce simp add: registry_def)
  with r obtain c where c: "(cb_checkRunId t, c) \<in> set cs"
      and hc: "(h, Timer (seconds_value (timeout s) * 1000) (cb_checkRunId t) c) \<in> set (timers s)"
    by (fastforce simp add: registry_def)
  from r have "distinct (map fst (timers s))" by (simp add: registry_def)
  with ht hc have teq: "t = Timer (seconds_value (timeout s) * 1000) (cb_checkRunId t) c"
    by (metis eq_key_imp_eq_value)
  from r c have mc: "map_of cs (cb_checkRunId t) = Some c"
    by (simp add: registry_def)
  have "expire h s =
      microtasks (emit CHECK_FINISHED [ACheck (map_of cs (cb_checkRunId t))]
        (emit CHECK_FAILED [ACheck (Some c), AText (timeout_message (timeout s))]
           (removed (cb_checkRunId t) h s)))"
  proof -
    from teq have "cb_check t = c" by (metis timer.sel(3))
    with t mc show ?thesis
      by (simp add: expire_def timeout_callback_def removed_alt Let_def del: emit_other)
  qed
  with teq kh mc show ?thesis by blast
qed

subsection \<open>The queue, the timers and the invariants\<close>

lemma start_task_cases:
  assumes "checks s = Some cs"
  shows "(\<exists>q. start_task api s = s\<lparr>queue := q\<rparr>)
       \<or> (\<exists>q k h. (k, h) \<in> set (timeouts s)
            \<and> (start_task api s = emit CHECK_INPROGRESS [ACheck (map_of cs k)] (s\<lparr>queue := q\<rparr>)
               \<or> (\<exists>r. start_task api s =
                         (removed k h (s\<lparr>queue := q\<rparr>))\<lparr>busy := Some (Suspended (map_of cs k) r)\<rparr>)
               \<or> (\<exists>e. start_task api s =
                         (removed k h (s\<lparr>queue := q\<rparr>))\<lparr>rejected := rejected s @ [e]\<rparr>)
               \<or> (\<exists>ev args. ev \<noteq> CHECK_FINISHED \<and> ev \<noteq> RUN_FINISHED
                    \<and> start_task api s =
                        emit CHECK_FINISHED [ACheck (map_of cs k)]
                          (emit ev args (removed k h (s\<lparr>queue := q\<rparr>))))))"
proof (cases "queue s")
  case Nil
  then have "start_task api s = s\<lparr>queue := []\<rparr>" by (simp add: start_task_def)
  then show ?thesis by blast
next
  case (Cons x q)
  obtain k sub m where x: "x = (k, sub, m)" by (cases x)
  let ?s0 = "s\<lparr>queue := q\<rparr>"
  have c0: "checks ?s0 = Some cs" using assms by simp
  have ts: "timeouts ?s0 = timeouts s" by simp
  from processMessage_start_cases [OF c0, of api k sub m]
  consider (same) "processMessage_start api k sub m ?s0 = (Inr None, ?s0)"
    | (progress) h where "(k, h) \<in> set (timeouts s)"
        "processMessage_start api k sub m ?s0 =
           (Inr None, emit CHECK_INPROGRESS [ACheck (map_of cs k)] ?s0)"
    | (suspended) h r where "(k, h) \<in> set (timeouts s)"
        "processMessage_start api k sub m ?s0 = (Inl (Suspended (map_of cs k) r), removed k h ?s0)"
    | (lost) h e where "(k, h) \<in> set (timeouts s)"
        "processMessage_start api k sub m ?s0 = (Inr (Some e), removed k h ?s0)"
    | (finish) h ev args where "(k, h) \<in> set (timeouts s)"
        "ev \<noteq> CHECK_FINISHED" "ev \<noteq> RUN_FINISHED"
        "processMessage_start api k sub m ?s0 =
           (Inr None, emit CHECK_FINISHED [ACheck (map_of cs k)] (emit ev args (removed k h ?s0)))"
    unfolding ts by blast
  then show ?thesis
  proof cases
    case same
    have "start_task api s = ?s0" by (simp add: start_task_def Cons x same)
    then show ?thesis by blast
  next
    case progress
    have "start_task api s = emit CHECK_INPROGRESS [ACheck (map_of cs k)] ?s0"
      by (simp add: start_task_def Cons x progress(2) del: emit_other)
    with progress(1) show ?thesis by blast
  next
    case suspended
    have "start_task api s = (removed k h ?s0)\<lparr>busy := Some (Suspended (map_of cs k) r)\<rparr>"
      by (simp add: start_task_def Cons x suspended(2))
    with suspended(1) show ?thesis by blast
  next
    case lost
    have "start_task api s = (removed k h ?s0)\<lparr>rejected := rejected s @ [e]\<rparr>"
      by (simp add: start_task_def Cons x lost(2))
    with lost(1) show ?thesis by blast
  next
    case finish
    have "start_task api s =
        emit CHECK_FINISHED [ACheck (map_of cs k)] (emit ev args (removed k h ?s0))"
      by (simp add: start_task_def Cons x finish(4) del: emit_other)
    with finish(1,2,3) show ?thesis by blast
  qed
qed

lemma registry_queue [simp]: "registry cs (s\<lparr>queue := q\<rparr>) = registry cs s"
  by (rule registry_cong) simp_all

lemma tracker_queue [simp]: "tracker cs (s\<lparr>queue := q\<rparr>) = tracker cs s"
  by (rule tracker_cong) simp_all

lemma registry_busy [simp]: "registry cs (s\<lparr>busy := b\<rparr>) = registry cs s"
  by (rule registry_cong) simp_all

lemma registry_rejected [simp]: "registry cs (s\<lparr>rejected := r\<rparr>) = registry cs s"
  by (rule registry_cong) simp_all

lemma start_task_registry:
  assumes r: "registry cs s"
  shows "registry cs (start_task api s)"
proof -
  from r have c: "checks s = Some cs" by (simp add: registry_def)
  have q: "\<And>q. registry cs (s\<lparr>queue := q\<rparr>)" using r by simp
  from start_task_cases [OF c, of api] show ?thesis
    by (elim disjE exE conjE)
       (simp_all add: registry_emit registry_removed q r del: emit_other)
qed

lemma start_task_tracker:
  assumes r: "registry cs s" and t: "tracker cs s" and b: "busy s = None"
  shows "tracker cs (start_task api s)"
proof -
  from r have c: "checks s = Some cs" and d: "distinct (map fst (timeouts s))"
    by (simp_all add: registry_def)
  have o: "\<And>q k h. (k, h) \<in> set (timeouts s) \<Longrightarrow>
      owing cs [ACheck (map_of cs k)] (removed k h (s\<lparr>queue := q\<rparr>))"
  proof -
    fix q k h assume m: "(k, h) \<in> set (timeouts s)"
    have "owing cs [ACheck (map_of cs k)] (removed k h (s\<lparr>queue := q\<rparr>))
        = owing cs [ACheck (map_of cs k)] (removed k h s)"
      by (rule owing_cong) simp_all
    with owing_removed [OF t d m] show "owing cs [ACheck (map_of cs k)] (removed k h (s\<lparr>queue := q\<rparr>))"
      by simp
  qed
  from start_task_cases [OF c, of api]
  consider (same) q where "start_task api s = s\<lparr>queue := q\<rparr>"
    | (progress) q k h where "(k, h) \<in> set (timeouts s)"
        "start_task api s = emit CHECK_INPROGRESS [ACheck (map_of cs k)] (s\<lparr>queue := q\<rparr>)"
    | (suspended) q k h r where "(k, h) \<in> set (timeouts s)"
        "start_task api s =
           (removed k h (s\<lparr>queue := q\<rparr>))\<lparr>busy := Some (Suspended (map_of cs k) r)\<rparr>"
    | (lost) q k h e where "(k, h) \<in> set (timeouts s)"
        "start_task api s = (removed k h (s\<lparr>queue := q\<rparr>))\<lparr>rejected := rejected s @ [e]\<rparr>"
    | (finish) q k h ev args where "(k, h) \<in> set (timeouts s)"
        "ev \<noteq> CHECK_FINISHED" "ev \<noteq> RUN_FINISHED"
        "start_task api s =
           emit CHECK_FINISHED [ACheck (map_of cs k)] (emit ev args (removed k h (s\<lparr>queue := q\<rparr>)))"
    by blast
  then show ?thesis
  proof cases
    case same
    with t show ?thesis by simp
  next
    case progress
    then have "timeouts s \<noteq> []" by auto
    with t have "run_state (s\<lparr>queue := q\<rparr>) \<noteq> Returned"
      using tracker_pending(2) [of cs s] by simp
    with t show ?thesis
      unfolding progress(2) by (intro tracker_emit_other) simp_all
  next
    case suspended
    have "busy (removed k h (s\<lparr>queue := q\<rparr>)) = None" using b by simp
    from owing_suspended [OF o [OF suspended(1)] this] show ?thesis
      unfolding suspended(2) .
  next
    case lost
    from owing_rejected [OF o [OF lost(1)], where e = e] show ?thesis
      unfolding lost(2) by simp
  next
    case finish
    show ?thesis
      unfolding finish(4)
      by (intro owing_finished owing_emit_other o finish)
  qed
qed

lemma start_task_frame [simp]:
  "timeout (start_task api s) = timeout s"
  "testSessionId (start_task api s) = testSessionId s"
  "run_state (start_task api s) = run_state s"
  "checks (start_task api s) = checks s"
  "queue_started (start_task api s) = queue_started s"
  "calls (start_task api s) = calls s"
  "listening (start_task api s) = listening s"
  by (auto simp add: start_task_def processMessage_start_def processMessage_def Let_def
        split: list.splits option.splits sum.splits prod.splits)

lemma settle_cases:
  assumes "busy s = Some c"
  shows "(\<exists>e. settle s = microtasks (s\<lparr>busy := None, rejected := rejected s @ [e]\<rparr>))
       \<or> (\<exists>args. settle s =
             microtasks (emit CHECK_FINISHED [ACheck (s_check c)]
               (emit CHECK_SUCCESSFUL args (s\<lparr>busy := None\<rparr>))))"
  using assms
  by (cases "s_outcome c") (auto simp add: settle_def processMessage_resume_def Let_def
        simp del: emit_other)


lemma settle_registry: "registry cs s \<Longrightarrow> registry cs (settle s)"
proof (cases "busy s")
  case None
  then show "registry cs s \<Longrightarrow> registry cs (settle s)" by (simp add: settle_def)
next
  case (Some c)
  assume r: "registry cs s"
  from settle_cases [OF Some] r show "registry cs (settle s)"
    by (elim disjE exE) (simp_all add: registry_microtasks registry_emit del: emit_other)
qed

lemma registry_step:
  assumes r: "registry cs s"
  shows "registry cs (step s i)"
proof (cases i)
  case (Message k sub m)
  have "registry cs (on_message (k, sub, m) s) = registry cs s"
    by (rule registry_cong) (simp_all add: on_message_def)
  with r Message show ?thesis by simp
next
  case (Work api)
  with r show ?thesis
    by (simp add: work_def registry_microtasks start_task_registry)
next
  case Settle
  with r show ?thesis by (simp add: settle_registry)
next
  case (Expire h)
  show ?thesis
  proof (cases "map_of (timers s) h")
    case None
    with r Expire show ?thesis by (simp add: expire_def)
  next
    case (Some tm)
    from expire_eq [OF r Some] obtain k c where
      kh: "(k, h) \<in> set (timeouts s)" and
      e: "expire h s =
            microtasks (emit CHECK_FINISHED [ACheck (map_of cs k)]
              (emit CHECK_FAILED [ACheck (Some c), AText (timeout_message (timeout s))]
                 (removed k h s)))"
      by blast
    have "registry cs (expire h s)"
      unfolding e registry_microtasks registry_emit by (rule registry_removed [OF r kh])
    with Expire show ?thesis by simp
  qed
qed


lemma registry_run_events: "registry cs s \<Longrightarrow> registry cs (run_events s evs)"
  unfolding run_events_def
  by (induction evs arbitrary: s) (simp_all add: registry_step)



lemma settle_frame [simp]:
  "timeout (settle s) = timeout s" "testSessionId (settle s) = testSessionId s"
  "timers (settle s) = timers s" "busy (settle s) = None"
  by (auto simp add: settle_def processMessage_resume_def Let_def
        split: option.splits sum.splits simp del: emit_other)

lemma step_frame [simp]:
  "timeout (step s i) = timeout s" "testSessionId (step s i) = testSessionId s"
  by (cases i; simp add: on_message_def work_def expire_def timeout_callback_def Let_def
        split: option.splits del: emit_other)+

lemma run_events_frame [simp]:
  "timeout (run_events s evs) = timeout s" "testSessionId (run_events s evs) = testSessionId s"
  unfolding run_events_def
  by (induction evs arbitrary: s) simp_all

subsection \<open>The state after the setup\<close>

lemma foldl_on_message:
  "listening s \<Longrightarrow> foldl (\<lambda>s' m. on_message m s') s ms = s\<lparr>queue := queue s @ ms\<rparr>"
  by (induction ms arbitrary: s) (simp_all add: on_message_def)

lemma run_setup:
  assumes "connect w = Inr ()"
    and "subscribe w (result_topic a (uuid_v4 w)) = Inr ()"
    and "scheduleChecks w (uuid_v4 w) = Inr (Scheduled sid rids cs)"
    and "distinct (map fst cs)"
  shows "run w (constructor a t v) =
     microtasks
       ((emit RUN_STARTED [ASession sid, AResultIds rids]
           (queue_start (service w) (armed w a t v cs)))
        \<lparr>testSessionId := sid, run_state := Awaiting\<rparr>)"
proof -
  have "foldl arm
          \<lparr> checks = Some cs, timeouts = [], accountId = a, timeout = t, verbose = v,
            queue = arrivals w, queue_started = False, busy = None, rejected = [],
            emitted = [], finished_listener = None, finishedCheckCount = 0,
            resolve_calls = 0, promise = None, timers = [], next_handle = 0,
            listening = True, testSessionId = None, run_state = NotRunning,
            calls = [Connect, Subscribe (result_topic a (uuid_v4 w)),
                     ScheduleChecks (uuid_v4 w)] \<rparr> cs
      = \<lparr> checks = Some cs, timeouts = map (\<lambda>(h, k, c). (k, h)) (enumerate 0 cs),
          accountId = a, timeout = t, verbose = v,
          queue = arrivals w, queue_started = False, busy = None, rejected = [],
          emitted = [], finished_listener = None, finishedCheckCount = 0,
          resolve_calls = 0, promise = None,
          timers = map (\<lambda>(h, k, c). (h, Timer (seconds_value t * 1000) k c)) (enumerate 0 cs),
          next_handle = length cs,
          listening = True, testSessionId = None, run_state = NotRunning,
          calls = [Connect, Subscribe (result_topic a (uuid_v4 w)),
                   ScheduleChecks (uuid_v4 w)] \<rparr>"
    using assms(4) by (simp add: foldl_arm)
  with assms(1,2,3) show ?thesis
    by (simp add: run_def run_try_def constructor_def configureResultListener_def
          setAllTimeouts_def allChecksFinished_def foldl_on_message armed_def Let_def
          del: emit_other)
qed

lemma enumerate_keys: "map (\<lambda>(h, k, c). f k c) (enumerate n cs) = map (\<lambda>(k, c). f k c) cs"
  by (induction cs arbitrary: n) auto

lemma registry_initial:
  assumes "distinct (map fst cs)"
    and "checks s = Some cs"
    and "timeouts s = map (\<lambda>(h, k, c). (k, h)) (enumerate n cs)"
    and "timers s = map (\<lambda>(h, k, c). (h, Timer (seconds_value (timeout s) * 1000) k c)) (enumerate n cs)"
  shows "registry cs s"
proof -
  have k: "map fst (timeouts s) = map fst cs"
    unfolding assms(3) by (induction cs arbitrary: n) auto
  have h: "map fst (timers s) = map fst (enumerate n cs)"
    unfolding assms(4) by (simp add: case_prod_unfold comp_def)
  have "distinct (map fst (enumerate n cs))" by simp
  with k h assms(1) have d: "distinct (map fst (timeouts s))" "distinct (map fst (timers s))"
    by simp_all
  have mem: "\<And>h x. (h, x) \<in> set (enumerate n cs) \<Longrightarrow> x \<in> set cs"
    by (auto simp add: in_set_enumerate_eq)
  have a: "\<forall>(k, h) \<in> set (timeouts s). \<exists>c. (k, c) \<in> set cs
              \<and> (h, Timer (seconds_value (timeout s) * 1000) k c) \<in> set (timers s)"
  proof (clarify)
    fix k h assume "(k, h) \<in> set (timeouts s)"
    then obtain c where e: "(h, k, c) \<in> set (enumerate n cs)"
      unfolding assms(3) by auto
    then have "(h, Timer (seconds_value (timeout s) * 1000) k c) \<in> set (timers s)"
      unfolding assms(4) by force
    with mem [OF e] show "\<exists>c. (k, c) \<in> set cs \<and> (h, Timer (seconds_value (timeout s) * 1000) k c) \<in> set (timers s)"
      by blast
  qed
  have b: "\<forall>(h, t) \<in> set (timers s). (cb_checkRunId t, h) \<in> set (timeouts s)"
    unfolding assms(3,4) by force
  from assms(1,2) d a b show ?thesis by (simp add: registry_def)
qed

lemma map_of_keys:
  "distinct (map fst cs) \<Longrightarrow> map (\<lambda>(k, c). f (map_of cs k)) cs = map (\<lambda>(k, c). f (Some c)) cs"
  by (rule map_cong) auto

lemma armed_registry: "distinct (map fst cs) \<Longrightarrow> registry cs (armed w a t v cs)"
  by (rule registry_initial [where n = 0]) (simp_all add: armed_def)

lemma armed_tracker:
  assumes d: "distinct (map fst cs)" and ne: "cs \<noteq> []"
  shows "tracker cs (armed w a t v cs)"
proof -
  have "map (\<lambda>(k, h). [ACheck (map_of cs k)]) (map (\<lambda>(h, k, c). (k, h)) (enumerate 0 cs))
      = map (\<lambda>(h, k, c). [ACheck (map_of cs k)]) (enumerate 0 cs)"
    by (simp add: case_prod_unfold comp_def)
  also have "\<dots> = map (\<lambda>(k, c). [ACheck (map_of cs k)]) cs"
    by (rule enumerate_keys)
  also have "\<dots> = map (\<lambda>(k, c). [ACheck (Some c)]) cs"
    using map_of_keys [OF d, of "\<lambda>x. [ACheck x]"] .
  finally have "outstanding cs (armed w a t v cs) = expected cs"
    by (simp add: outstanding_def expected_def in_flight_def armed_def)
  moreover have "size (expected cs) = length cs" by (simp add: expected_def)
  ultimately show ?thesis
    using ne unfolding tracker_def by (simp add: armed_def)
qed

lemma tracker_awaiting:
  assumes "tracker cs s" and "run_state s = NotRunning"
  shows "tracker cs (s\<lparr>testSessionId := sid, run_state := Awaiting\<rparr>)"
  using assms
  by (simp add: tracker_def outstanding_cong [of "s\<lparr>testSessionId := sid, run_state := Awaiting\<rparr>" s])

lemma run_invariant:
  assumes ok: "connect w = Inr ()" "subscribe w (result_topic a (uuid_v4 w)) = Inr ()"
      "scheduleChecks w (uuid_v4 w) = Inr (Scheduled sid rids cs)"
    and d: "distinct (map fst cs)"
  shows "registry cs (run w (constructor a t v))"
    and "timeout (run w (constructor a t v)) = t"
    and "testSessionId (run w (constructor a t v)) = sid"
    and "cs \<noteq> [] \<Longrightarrow> tracker cs (run w (constructor a t v))"
    and "cs \<noteq> [] \<Longrightarrow> settled cs (run w (constructor a t v))"
proof -
  let ?s7 = "(armed w a t v cs)\<lparr>queue_started := True\<rparr>"
  let ?s8 = "start_task (service w) ?s7"
  let ?s9 = "emit RUN_STARTED [ASession sid, AResultIds rids] ?s8"
  let ?s10 = "?s9\<lparr>testSessionId := sid, run_state := Awaiting\<rparr>"
  have eq: "run w (constructor a t v) = microtasks ?s10"
    using run_setup [OF ok d] by (simp add: queue_start_def del: emit_other)
  have "registry cs ?s7"
    using armed_registry [OF d, of w a t v] registry_cong [of ?s7 "armed w a t v cs" cs] by simp
  then have "registry cs ?s8" by (rule start_task_registry)
  then have r10: "registry cs ?s10"
    using registry_cong [of ?s10 ?s8 cs] by (simp del: emit_other)
  show "registry cs (run w (constructor a t v))"
    unfolding eq registry_microtasks by (rule r10)
  show "timeout (run w (constructor a t v)) = t"
    unfolding eq by (simp add: armed_def del: emit_other)
  show "testSessionId (run w (constructor a t v)) = sid"
    unfolding eq by (simp add: microtasks_def run_resume_def run_finally_def socket_end_def
        del: emit_other)
  assume ne: "cs \<noteq> []"
  have t7: "tracker cs ?s7"
    using armed_tracker [OF d ne, of w a t v] tracker_cong [of ?s7 "armed w a t v cs" cs] by simp
  have "busy ?s7 = None" by (simp add: armed_def)
  with \<open>registry cs ?s7\<close> t7 have t8: "tracker cs ?s8" by (intro start_task_tracker)
  have n8: "run_state ?s8 = NotRunning" by (simp add: armed_def)
  then have "tracker cs ?s9" using t8 by (intro tracker_emit_other) simp_all
  moreover have "run_state ?s9 = NotRunning" using n8 by (simp del: emit_other)
  ultimately have "tracker cs ?s10" by (rule tracker_awaiting)
  from tracker_microtasks [OF this]
  show "tracker cs (run w (constructor a t v))" and "settled cs (run w (constructor a t v))"
    unfolding eq by simp_all
qed

subsection \<open>When nothing is pending\<close>

lemma start_task_quiet:
  assumes "timeouts s = []"
  shows "\<exists>q. start_task api s = s\<lparr>queue := q\<rparr>"
proof (cases "queue s")
  case Nil
  then have "start_task api s = s\<lparr>queue := []\<rparr>" by (simp add: start_task_def)
  then show ?thesis by blast
next
  case (Cons x q)
  obtain k sub m where x: "x = (k, sub, m)" by (cases x)
  have "processMessage_start api k sub m (s\<lparr>queue := q\<rparr>) = (Inr None, s\<lparr>queue := q\<rparr>)"
    using assms
    by (simp add: processMessage_start_def processMessage_def split: option.splits)
  then have "start_task api s = s\<lparr>queue := q\<rparr>"
    by (simp add: start_task_def Cons x)
  then show ?thesis by blast
qed

lemma quiet_step:
  assumes "timeouts s = []" and "timers s = []" and "busy s = None"
    and "run_state s \<noteq> Awaiting"
  shows "emitted (step s i) = emitted s \<and> timeouts (step s i) = [] \<and> timers (step s i) = []
         \<and> busy (step s i) = None
         \<and> run_state (step s i) = run_state s \<and> calls (step s i) = calls s"
proof (cases i)
  case (Message k sub m)
  with assms show ?thesis by (simp add: on_message_def)
next
  case (Work api)
  from start_task_quiet [OF assms(1), of api] obtain q where
    "start_task api s = s\<lparr>queue := q\<rparr>" by blast
  with assms Work show ?thesis by (simp add: work_def microtasks_def)
next
  case Settle
  with assms show ?thesis by (simp add: settle_def)
next
  case (Expire h)
  with assms show ?thesis by (simp add: expire_def)
qed

lemma quiet_run_events:
  assumes "timeouts s = []" and "timers s = []" and "busy s = None"
    and "run_state s \<noteq> Awaiting"
  shows "emitted (run_events s evs) = emitted s \<and> timeouts (run_events s evs) = []
         \<and> timers (run_events s evs) = [] \<and> run_state (run_events s evs) = run_state s
         \<and> calls (run_events s evs) = calls s"
  using assms unfolding run_events_def
proof (induction evs arbitrary: s)
  case Nil
  then show ?case by simp
next
  case (Cons i evs)
  from quiet_step [OF Cons.prems, of i] Cons.IH [of "step s i"] Cons.prems(4)
  show ?case by simp
qed

lemma run_failure:
  assumes "connect w = Inl e
         \<or> (connect w = Inr () \<and> subscribe w (result_topic a (uuid_v4 w)) = Inl e)
         \<or> (connect w = Inr () \<and> subscribe w (result_topic a (uuid_v4 w)) = Inr ()
             \<and> scheduleChecks w (uuid_v4 w) = Inl e)"
  shows "emitted (run w (constructor a t v)) = [(ERROR, [AError e])]"
    and "timeouts (run w (constructor a t v)) = []"
    and "timers (run w (constructor a t v)) = []"
    and "busy (run w (constructor a t v)) = None"
    and "run_state (run w (constructor a t v)) = Returned"
    and "checks (run w (constructor a t v)) = None"
    and "\<not> queue_started (run w (constructor a t v))"
    and "connect w = Inl e \<Longrightarrow> calls (run w (constructor a t v)) = [Connect]"
  using assms
  by (auto simp add: run_def run_try_def constructor_def configureResultListener_def
        foldl_on_message run_catch_def run_finally_def socket_end_def disableAllTimeouts_def
        Let_def)

text \<open>Firing every pending timer leaves none.\<close>

lemma delete_absent: "k \<notin> fst ` set al \<Longrightarrow> AList.delete k al = al"
  by (induction al) (auto simp add: AList.delete_eq)



subsection \<open>Further \<^verbatim>\<open>CHECK_FINISHED\<close> events\<close>


subsection \<open>The digits of the timeout message\<close>

lemma digit_of_digit: "digit_of (digit n) = Some (n mod 10)"
proof -
  have "n mod 10 < 10" by simp
  then have "n mod 10 = 0 \<or> n mod 10 = 1 \<or> n mod 10 = 2 \<or> n mod 10 = 3 \<or> n mod 10 = 4
    \<or> n mod 10 = 5 \<or> n mod 10 = 6 \<or> n mod 10 = 7 \<or> n mod 10 = 8 \<or> n mod 10 = 9"
    by arith
  then show ?thesis
    by (elim disjE) (simp_all add: digit_def digit_of_def)
qed

lemma digit_not_minus: "digit n \<noteq> CHR ''-''"
  using digit_of_digit [of n] by (auto simp add: digit_of_def)

lemma string_of_nat_read:
  "foldl (\<lambda>acc c. case acc of None \<Rightarrow> None
                   | Some n \<Rightarrow> (case digit_of c of None \<Rightarrow> None | Some d \<Rightarrow> Some (10 * n + d)))
     (Some 0) (string_of_nat n) = Some n"
proof (induction n rule: string_of_nat.induct)
  case (1 n)
  show ?case
  proof (cases "n < 10")
    case True
    then show ?thesis
      by (subst string_of_nat.simps) (simp add: digit_of_digit)
  next
    case False
    with "1" show ?thesis
      by (subst string_of_nat.simps) (simp add: digit_of_digit)
  qed
qed

lemma string_of_nat_shape: "string_of_nat n \<noteq> [] \<and> hd (string_of_nat n) \<noteq> CHR ''-''"
proof (induction n rule: string_of_nat.induct)
  case (1 n)
  show ?case
  proof (cases "n < 10")
    case True
    then show ?thesis
      by (subst (1 2) string_of_nat.simps) (simp add: digit_not_minus)
  next
    case False
    with "1" show ?thesis
      by (subst (1 2) string_of_nat.simps) simp
  qed
qed

lemma read_nat_string_of_nat: "read_nat (string_of_nat n) = Some n"
  using string_of_nat_shape [of n] by (simp add: read_nat_def string_of_nat_read)

lemma read_int_string_of_int: "read_int (string_of_int i) = Some i"
proof (cases "i < 0")
  case True
  then show ?thesis
    by (simp add: read_int_def string_of_int_def read_nat_string_of_nat)
next
  case False
  obtain c cs where s: "string_of_nat (nat i) = c # cs"
    using string_of_nat_shape [of "nat i"] by (cases "string_of_nat (nat i)") auto
  with string_of_nat_shape [of "nat i"] have "c \<noteq> CHR ''-''" by simp
  with False s read_nat_string_of_nat [of "nat i"] show ?thesis
    by (simp add: read_int_def string_of_int_def)
qed

subsection \<open>Completion\<close>









lemma run_without_checks_eq:
  assumes "connect w = Inr ()" and "subscribe w (result_topic a (uuid_v4 w)) = Inr ()"
    and "scheduleChecks w (uuid_v4 w) = Inr (Scheduled sid rids [])"
  shows "emitted (run w (constructor a t v)) =
           [(RUN_STARTED, [ASession sid, AResultIds rids]), (RUN_FINISHED, [ASession sid])]"
    and "timeouts (run w (constructor a t v)) = []"
    and "timers (run w (constructor a t v)) = []"
    and "busy (run w (constructor a t v)) = None"
    and "run_state (run w (constructor a t v)) = Returned"
    and "promise (run w (constructor a t v)) = Some True"
proof -
  let ?s7 = "(armed w a t v [])\<lparr>queue_started := True\<rparr>"
  have "timeouts ?s7 = []" by (simp add: armed_def)
  from start_task_quiet [OF this, of "service w"] obtain q where
    q: "start_task (service w) ?s7 = ?s7\<lparr>queue := q\<rparr>" by blast
  have eq: "run w (constructor a t v) =
     microtasks
       ((emit RUN_STARTED [ASession sid, AResultIds rids] (?s7\<lparr>queue := q\<rparr>))
        \<lparr>testSessionId := sid, run_state := Awaiting\<rparr>)"
    using run_setup [OF assms, of t v] q by (simp add: queue_start_def del: emit_other)
  show "emitted (run w (constructor a t v)) =
           [(RUN_STARTED, [ASession sid, AResultIds rids]), (RUN_FINISHED, [ASession sid])]"
    and "timeouts (run w (constructor a t v)) = []"
    and "timers (run w (constructor a t v)) = []"
    and "busy (run w (constructor a t v)) = None"
    and "run_state (run w (constructor a t v)) = Returned"
    and "promise (run w (constructor a t v)) = Some True"
    unfolding eq
    by (simp_all add: armed_def microtasks_def run_resume_def run_finally_def socket_end_def)
qed

subsection \<open>The asset fetches\<close>

lemma promise_all_rejects:
  "xs \<noteq> [] \<Longrightarrow> \<forall>x. \<exists>e. f x = Inl e \<Longrightarrow> \<exists>e. promise_all (map f xs) = Inl e"
  by (cases xs) (auto, metis promise_all.simps(2))

lemma fetch_links_all_rejected:
  assumes "\<forall>r p. \<exists>e. getAssetsLink api r p = Inl e"
  shows "fetch_links api a res = res"
proof -
  have "\<And>fs. truthy_files fs \<Longrightarrow>
      \<exists>e. promise_all (map (getAssetsLink api (region a)) (the fs)) = Inl e"
    using assms by (auto simp add: truthy_files_def intro!: promise_all_rejects split: option.splits)
  then show ?thesis
    by (fastforce simp add: fetch_links_def split: sum.splits)
qed

lemma fetch_ignores_links [simp]:
  "fetch_logs (api\<lparr>getAssetsLink := links\<rparr>) v a res = fetch_logs api v a res"
  "fetch_checkRunData (api\<lparr>getAssetsLink := links\<rparr>) v a res = fetch_checkRunData api v a res"
  by (auto simp add: fetch_logs_def fetch_checkRunData_def)

subsection \<open>The concrete run, evaluated\<close>

lemma ex_seconds: "seconds_value (Seconds 5) = 5"
  by (simp add: Seconds_inverse)

lemma ex_digits: "string_of_int 5 = ''5''"
  by (simp add: string_of_int_def string_of_nat.simps digit_def)

lemma ex_timeout_message:
  "timeout_message (Seconds 5) = ''Reached timeout of 5 seconds waiting for check result.''"
  by (simp add: timeout_message_def ex_seconds ex_digits)

lemmas ex_defs = ex_runner_def ex_world_def ex_checks_def ex_api_def ex_error_def ex_run_end_def
  ex_result_def ex_assets_def

lemmas run_defs = run_def run_try_def constructor_def configureResultListener_def result_topic_def
  setAllTimeouts_def allChecksFinished_def arm_def setTimeout_def on_message_def
  queue_start_def start_task_def processMessage_start_def processMessage_def
  microtasks_def run_resume_def run_finally_def socket_end_def run_catch_def
  disableAllTimeouts_def ex_seconds

lemma ex_runner_eq:
  "ex_runner =
     \<lparr> checks = Some [(''a'', ''check A''), (''b'', ''check B'')],
       timeouts = [(''a'', 0), (''b'', 1)], accountId = ''acc'', timeout = Seconds 5,
       verbose = False, queue = [], queue_started = True, busy = None, rejected = [],
       emitted = [(CHECK_INPROGRESS, [ACheck (Some ''check A'')]),
                  (RUN_STARTED, [ASession (Some ''s1''), AResultIds None])],
       finished_listener = Some 2, finishedCheckCount = 0, resolve_calls = 0,
       promise = Some False,
       timers = [(0, Timer 5000 ''a'' ''check A''), (1, Timer 5000 ''b'' ''check B'')],
       next_handle = 2, listening = True, testSessionId = Some ''s1'',
       run_state = Awaiting,
       calls = [Connect, Subscribe ''account/acc/ad-hoc-check-results/u1/+/+'',
                ScheduleChecks ''u1''] \<rparr>"
  by (simp add: ex_runner_def ex_world_def ex_checks_def ex_error_def run_defs)

lemma ex_world_ok:
  "connect (ex_world d) = Inr ()"
  "subscribe (ex_world d) (result_topic ''acc'' (uuid_v4 (ex_world d))) = Inr ()"
  "scheduleChecks (ex_world d) (uuid_v4 (ex_world d)) = d"
  by (simp_all add: ex_world_def)

lemma ex_checks_distinct: "distinct (map fst ex_checks)" "ex_checks \<noteq> []"
  by (simp_all add: ex_checks_def)

lemmas step_defs = run_events_def work_def settle_def expire_def on_message_def
  start_task_def processMessage_start_def processMessage_resume_def reaches_await_def
  processMessage_def
  run_end_result_def fetch_logs_def fetch_checkRunData_def fetch_links_def truthy_path_def
  truthy_files_def disableTimeout_def clearTimeout_def timeout_callback_def emit_def
  on_check_finished_def resolve_def microtasks_def run_resume_def run_finally_def
  socket_end_def AList.delete_eq Let_def



lemma ex_runner_reached:
  "ex_runner = run_events (run (ex_world (Inr (Scheduled (Some ''s1'') None ex_checks)))
                 (constructor ''acc'' (Seconds 5) False)) []"
  by (simp add: ex_runner_def run_events_def)

section \<open>The claims\<close>

text \<open>
  C1, as the code has it. Only the link fetches sit inside the \<^verbatim>\<open>try\<close> block. For a
  \<^verbatim>\<open>run-end\<close> message of a check with an armed timer whose payload carries
  \<^verbatim>\<open>result.assets\<close> and whose log and check-run-data fetches (where made) succeed,
  \<^verbatim>\<open>CHECK_SUCCESSFUL\<close> and then \<^verbatim>\<open>CHECK_FINISHED\<close> are emitted for that check
  whatever the trace-link and video-link fetches do; a rejected link fetch is swallowed,
  and when every link fetch is rejected the result is reported without links.
\<close>

theorem link_fetch_failure_is_swallowed:
  assumes "map_of (timeouts s) k = Some h" and "checks s = Some cs"
    and "result m = Some res" and "assets res = Some a"
    and "fetch_logs api (verbose s) a res = Inr res1"
    and "fetch_checkRunData api (verbose s) a res1 = Inr res2"
  shows "\<forall>links.
           fst (processMessage (api\<lparr>getAssetsLink := links\<rparr>) k ''run-end'' m s) = None
         \<and> emitted (snd (processMessage (api\<lparr>getAssetsLink := links\<rparr>) k ''run-end'' m s)) =
             emitted s @
             [(CHECK_SUCCESSFUL,
               [ACheck (map_of cs k), AResult (fetch_links (api\<lparr>getAssetsLink := links\<rparr>) a res2)]),
              (CHECK_FINISHED, [ACheck (map_of cs k)])]
         \<and> ((\<forall>r p. \<exists>e. links r p = Inl e) \<longrightarrow>
              fetch_links (api\<lparr>getAssetsLink := links\<rparr>) a res2 = res2)"
proof
  fix links
  have "(\<forall>r p. \<exists>e. links r p = Inl e) \<longrightarrow>
          fetch_links (api\<lparr>getAssetsLink := links\<rparr>) a res2 = res2"
    by (auto intro!: fetch_links_all_rejected)
  with assms show "fst (processMessage (api\<lparr>getAssetsLink := links\<rparr>) k ''run-end'' m s) = None
         \<and> emitted (snd (processMessage (api\<lparr>getAssetsLink := links\<rparr>) k ''run-end'' m s)) =
             emitted s @
             [(CHECK_SUCCESSFUL,
               [ACheck (map_of cs k), AResult (fetch_links (api\<lparr>getAssetsLink := links\<rparr>) a res2)]),
              (CHECK_FINISHED, [ACheck (map_of cs k)])]
         \<and> ((\<forall>r p. \<exists>e. links r p = Inl e) \<longrightarrow>
              fetch_links (api\<lparr>getAssetsLink := links\<rparr>) a res2 = res2)"
    by (simp add: processMessage_def run_end_result_def Let_def)
qed

theorem link_fetch_failure_is_swallowed_witness:
  "map_of (timeouts ex_runner) ''a'' = Some 0 \<and> checks ex_runner = Some ex_checks
   \<and> result ex_run_end = Some ex_result \<and> assets ex_result = Some ex_assets
   \<and> fetch_logs (ex_api True True False) (verbose ex_runner) ex_assets ex_result =
       Inr (ex_result\<lparr>logs := Some ''log''\<rparr>)
   \<and> fetch_checkRunData (ex_api True True False) (verbose ex_runner) ex_assets
         (ex_result\<lparr>logs := Some ''log''\<rparr>) =
       Inr (ex_result\<lparr>logs := Some ''log'', checkRunData := Some ''data''\<rparr>)
   \<and> getAssetsLink (ex_api True True False) ''eu'' ''trace/a'' = Inl (Failure ''no link'')
   \<and> emitted (snd (processMessage (ex_api True True False) ''a'' ''run-end'' ex_run_end ex_runner)) =
       emitted ex_runner @
       [(CHECK_SUCCESSFUL,
         [ACheck (Some ''check A''),
          AResult (ex_result\<lparr>logs := Some ''log'', checkRunData := Some ''data''\<rparr>)]),
        (CHECK_FINISHED, [ACheck (Some ''check A'')])]"
proof -
  let ?api = "ex_api True True False"
  have h1: "map_of (timeouts ex_runner) ''a'' = Some 0"
    and h2: "checks ex_runner = Some ex_checks"
    by (simp_all add: ex_runner_eq ex_checks_def)
  have h3: "result ex_run_end = Some ex_result" by (simp add: ex_run_end_def)
  have h4: "assets ex_result = Some ex_assets" by (simp add: ex_result_def)
  have h5: "fetch_logs ?api (verbose ex_runner) ex_assets ex_result =
       Inr (ex_result\<lparr>logs := Some ''log''\<rparr>)"
    by (simp add: fetch_logs_def truthy_path_def ex_api_def ex_assets_def ex_result_def)
  have h6: "fetch_checkRunData ?api (verbose ex_runner) ex_assets (ex_result\<lparr>logs := Some ''log''\<rparr>) =
       Inr (ex_result\<lparr>logs := Some ''log'', checkRunData := Some ''data''\<rparr>)"
    by (simp add: fetch_checkRunData_def truthy_path_def ex_api_def ex_assets_def ex_result_def)
  have l: "getAssetsLink ?api ''eu'' ''trace/a'' = Inl (Failure ''no link'')"
    and all: "\<forall>r p. \<exists>e. getAssetsLink ?api r p = Inl e"
    by (simp_all add: ex_api_def)
  have same: "?api\<lparr>getAssetsLink := getAssetsLink ?api\<rparr> = ?api" by simp
  from link_fetch_failure_is_swallowed [OF h1 h2 h3 h4 h5 h6, THEN spec, of "getAssetsLink ?api"]
  have "emitted (snd (processMessage ?api ''a'' ''run-end'' ex_run_end ex_runner)) =
       emitted ex_runner @
       [(CHECK_SUCCESSFUL,
         [ACheck (map_of ex_checks ''a''),
          AResult (ex_result\<lparr>logs := Some ''log'', checkRunData := Some ''data''\<rparr>)]),
        (CHECK_FINISHED, [ACheck (map_of ex_checks ''a'')])]"
    unfolding same using all by simp
  then have e: "emitted (snd (processMessage ?api ''a'' ''run-end'' ex_run_end ex_runner)) =
       emitted ex_runner @
       [(CHECK_SUCCESSFUL,
         [ACheck (Some ''check A''),
          AResult (ex_result\<lparr>logs := Some ''log'', checkRunData := Some ''data''\<rparr>)]),
        (CHECK_FINISHED, [ACheck (Some ''check A'')])]"
    by (simp add: ex_checks_def)
  from h1 h2 h3 h4 h5 h6 l e show ?thesis by (intro conjI)
qed

text \<open>
  C1 as stated fails for the log fetch, which is made before the \<^verbatim>\<open>try\<close> block: in
  the concrete run, with \<^verbatim>\<open>getLogs\<close> rejecting, the \<^verbatim>\<open>run-end\<close> message of \<open>a\<close>
  is handled while the timer of \<open>a\<close> is armed, the returned promise rejects with the
  fetch error, nothing is emitted, and the registry entry of \<open>a\<close> is gone.
\<close>

theorem log_fetch_failure_loses_check:
  "map_of (timeouts ex_runner) ''a'' = Some 0
   \<and> getLogs (ex_api False True True) ''eu'' ''logs/a'' = Inl (Failure ''no logs'')
   \<and> fst (processMessage (ex_api False True True) ''a'' ''run-end'' ex_run_end ex_runner) =
       Some (Failure ''no logs'')
   \<and> emitted (snd (processMessage (ex_api False True True) ''a'' ''run-end'' ex_run_end ex_runner)) =
       emitted ex_runner
   \<and> map_of (timeouts (snd (processMessage (ex_api False True True) ''a'' ''run-end'' ex_run_end ex_runner))) ''a'' = None"
  by (simp add: ex_runner_eq step_defs ex_api_def ex_run_end_def ex_result_def ex_assets_def)




text \<open>
  C3. A message whose check identifier has no entry in the timer registry is discarded:
  whatever its subtopic and payload, \<^verbatim>\<open>processMessage\<close> returns normally, emits
  nothing and leaves the whole state as it was.
\<close>

theorem processMessage_no_timer_discards:
  assumes "map_of (timeouts s) checkRunId = None"
  shows "processMessage api checkRunId subtopic m s = (None, s)"
  using assms by (simp add: processMessage_def)

theorem processMessage_no_timer_discards_witness:
  "map_of (timeouts ex_runner) ''c'' = None
   \<and> processMessage (ex_api True True True) ''c'' ''run-end'' ex_run_end ex_runner = (None, ex_runner)"
  using processMessage_no_timer_discards [of ex_runner "''c''" "ex_api True True True" "''run-end''" ex_run_end]
  by (simp add: ex_runner_eq)

text \<open>
  C4, as the code has it. In every state a run reaches after a successful setup, a
  \<^verbatim>\<open>run-end\<close> message for a check with an armed timer removes the registry entry and
  clears the pending timer: no pending timer is left for that check, and an expiry of
  its handle afterwards changes nothing and emits nothing. Whenever the handling gets
  through the payload and the log and check-run-data fetches, \<^verbatim>\<open>CHECK_SUCCESSFUL\<close>
  and then \<^verbatim>\<open>CHECK_FINISHED\<close> are emitted with the descriptor of that check.
\<close>

theorem run_end_cancels_timer:
  assumes ok: "connect w = Inr ()" "subscribe w (result_topic a (uuid_v4 w)) = Inr ()"
      "scheduleChecks w (uuid_v4 w) = Inr (Scheduled sid rids cs)"
    and d: "distinct (map fst cs)"
    and s: "s = run_events (run w (constructor a t v)) evs"
    and armed: "map_of (timeouts s) k = Some h"
  shows "\<exists>c. (k, c) \<in> set cs
          \<and> map_of (timeouts (snd (processMessage api k ''run-end'' m s))) k = None
          \<and> (\<forall>h' tm. map_of (timers (snd (processMessage api k ''run-end'' m s))) h' = Some tm
                \<longrightarrow> cb_checkRunId tm \<noteq> k)
          \<and> expire h (snd (processMessage api k ''run-end'' m s)) =
              snd (processMessage api k ''run-end'' m s)
          \<and> (\<forall>res. run_end_result api (verbose s) m = Inr res \<longrightarrow>
                fst (processMessage api k ''run-end'' m s) = None
              \<and> emitted (snd (processMessage api k ''run-end'' m s)) =
                  emitted s @ [(CHECK_SUCCESSFUL, [ACheck (Some c), AResult res]),
                               (CHECK_FINISHED, [ACheck (Some c)])])"
proof -
  let ?s' = "snd (processMessage api k ''run-end'' m s)"
  note i = run_invariant [OF ok d, of t v]
  have r: "registry cs s" unfolding s by (rule registry_run_events [OF i(1)])
  then have c0: "checks s = Some cs" by (simp add: registry_def)
  from armed have kh: "(k, h) \<in> set (timeouts s)" by (rule map_of_SomeD)
  with r obtain c where c: "(k, c) \<in> set cs" by (fastforce simp add: registry_def)
  with d have mc: "map_of cs k = Some c" by simp
  have f: "timeouts ?s' = AList.delete k (timeouts s)" "timers ?s' = AList.delete h (timers s)"
      "checks ?s' = checks s" "timeout ?s' = timeout s"
    using armed c0 by (simp_all add: processMessage_def Let_def split: sum.splits)
  have "registry cs (removed k h s)" by (rule registry_removed [OF r kh])
  then have r': "registry cs ?s'"
    using registry_cong [of ?s' "removed k h s" cs] f by simp
  have g1: "map_of (timeouts ?s') k = None" by (simp add: f)
  have g2: "\<forall>h' tm. map_of (timers ?s') h' = Some tm \<longrightarrow> cb_checkRunId tm \<noteq> k"
  proof (intro allI impI)
    fix h' tm assume "map_of (timers ?s') h' = Some tm"
    then have "(h', tm) \<in> set (timers ?s')" by (rule map_of_SomeD)
    with r' have "(cb_checkRunId tm, h') \<in> set (timeouts ?s')"
      by (fastforce simp add: registry_def)
    then show "cb_checkRunId tm \<noteq> k" by (auto simp add: f set_delete)
  qed
  have g3: "expire h ?s' = ?s'" by (simp add: expire_def f)
  have g4: "\<forall>res. run_end_result api (verbose s) m = Inr res \<longrightarrow>
                fst (processMessage api k ''run-end'' m s) = None
              \<and> emitted ?s' =
                  emitted s @ [(CHECK_SUCCESSFUL, [ACheck (Some c), AResult res]),
                               (CHECK_FINISHED, [ACheck (Some c)])]"
    using armed c0 mc by (simp add: processMessage_def Let_def)
  from c g1 g2 g3 g4 show ?thesis by blast
qed

theorem run_end_cancels_timer_witness:
  "map_of (timeouts ex_runner) ''a'' = Some 0
   \<and> map_of (timeouts (snd (processMessage (ex_api True True True) ''a'' ''run-end'' ex_run_end ex_runner))) ''a'' = None
   \<and> expire 0 (snd (processMessage (ex_api True True True) ''a'' ''run-end'' ex_run_end ex_runner)) =
       snd (processMessage (ex_api True True True) ''a'' ''run-end'' ex_run_end ex_runner)
   \<and> (\<exists>res. run_end_result (ex_api True True True) (verbose ex_runner) ex_run_end = Inr res)"
proof -
  have h: "map_of (timeouts ex_runner) ''a'' = Some 0" by (simp add: ex_runner_eq)
  have ok: "\<exists>res. run_end_result (ex_api True True True) (verbose ex_runner) ex_run_end = Inr res"
    by (simp add: run_end_result_def fetch_logs_def fetch_checkRunData_def truthy_path_def
          ex_api_def ex_run_end_def ex_result_def ex_assets_def)
  from run_end_cancels_timer
         [OF ex_world_ok(1) ex_world_ok(2) ex_world_ok(3) ex_checks_distinct(1)
            ex_runner_reached h, of "ex_api True True True" ex_run_end]
    h ok
  show ?thesis by blast
qed

text \<open>
  C4 as stated fails when a fetch made before the \<^verbatim>\<open>try\<close> block rejects: in the
  concrete run, with \<^verbatim>\<open>getCheckRunData\<close> rejecting, the \<^verbatim>\<open>run-end\<close> message of
  \<open>a\<close> arrives while the timer of \<open>a\<close> is armed and neither \<^verbatim>\<open>CHECK_SUCCESSFUL\<close>
  nor \<^verbatim>\<open>CHECK_FINISHED\<close> is emitted.
\<close>

theorem data_fetch_failure_loses_check:
  "map_of (timeouts ex_runner) ''a'' = Some 0
   \<and> getCheckRunData (ex_api True False True) ''eu'' ''data/a'' = Inl (Failure ''no data'')
   \<and> emitted (snd (processMessage (ex_api True False True) ''a'' ''run-end'' ex_run_end ex_runner)) =
       emitted ex_runner
   \<and> count_event CHECK_SUCCESSFUL
       (emitted (snd (processMessage (ex_api True False True) ''a'' ''run-end'' ex_run_end ex_runner))) = 0
   \<and> count_event CHECK_FINISHED
       (emitted (snd (processMessage (ex_api True False True) ''a'' ''run-end'' ex_run_end ex_runner))) = 0"
  by (simp add: ex_runner_eq step_defs ex_api_def ex_run_end_def ex_result_def ex_assets_def)

text \<open>
  C5. The timeout is a whole number of seconds whose product with 1000 is below
  \<open>2 ^ 53\<close> in absolute value. In every state a run reaches after a successful setup,
  a pending timer belongs to one check of the run, is the one registered for it, and
  was set with a delay of \<open>timeout * 1000\<close>. When it fires, the registry entry of the
  check is removed and \<^verbatim>\<open>CHECK_FAILED\<close> with the text
  \<^verbatim>\<open>Reached timeout of \<close>\<open>timeout\<close>\<^verbatim>\<open> seconds waiting for check result.\<close>, in which the
  timeout is written as the decimal numeral that reads back as its value, and then
  \<^verbatim>\<open>CHECK_FINISHED\<close> are emitted for the check (followed only by \<^verbatim>\<open>RUN_FINISHED\<close>
  when it was the last check); the timer is gone from the table, so it fires once.
\<close>

theorem timer_expiry_fails_check:
  assumes ok: "connect w = Inr ()" "subscribe w (result_topic a (uuid_v4 w)) = Inr ()"
      "scheduleChecks w (uuid_v4 w) = Inr (Scheduled sid rids cs)"
    and d: "distinct (map fst cs)"
    and s: "s = run_events (run w (constructor a t v)) evs"
    and pending: "map_of (timers s) h = Some tm"
  shows "\<exists>k c. (k, c) \<in> set cs \<and> tm = Timer (seconds_value t * 1000) k c
          \<and> map_of (timeouts s) k = Some h
          \<and> map_of (timeouts (expire h s)) k = None
          \<and> map_of (timers (expire h s)) h = None
          \<and> (\<exists>rest. emitted (expire h s) =
                emitted s @
                [(CHECK_FAILED,
                  [ACheck (Some c),
                   AText (''Reached timeout of '' @ string_of_int (seconds_value t)
                            @ '' seconds waiting for check result.'')]),
                 (CHECK_FINISHED, [ACheck (Some c)])] @ rest
                \<and> (rest = [] \<or> rest = [(RUN_FINISHED, [ASession sid])]))
          \<and> read_int (string_of_int (seconds_value t)) = Some (seconds_value t)
          \<and> \<bar>seconds_value t\<bar> * 1000 < 2 ^ 53
          \<and> expire h (expire h s) = expire h s"
proof -
  note i = run_invariant [OF ok d, of t v]
  have r: "registry cs s" unfolding s by (rule registry_run_events [OF i(1)])
  have c: "timeout s = t" "testSessionId s = sid" unfolding s by (simp_all add: i)
  from expire_eq [OF r pending] obtain k c where
    tm: "tm = Timer (seconds_value (timeout s) * 1000) k c" and kh: "(k, h) \<in> set (timeouts s)"
    and mc: "map_of cs k = Some c"
    and e: "expire h s =
              microtasks (emit CHECK_FINISHED [ACheck (map_of cs k)]
                (emit CHECK_FAILED [ACheck (Some c), AText (timeout_message (timeout s))]
                   (removed k h s)))"
    by blast
  from r have dk: "distinct (map fst (timeouts s))" by (simp add: registry_def)
  with kh have reg: "map_of (timeouts s) k = Some h" by simp
  from mc have inc: "(k, c) \<in> set cs" by (rule map_of_SomeD)
  from tm c have tm': "tm = Timer (seconds_value t * 1000) k c" by simp
  have g1: "map_of (timeouts (expire h s)) k = None" and g2: "map_of (timers (expire h s)) h = None"
    unfolding e by (simp_all del: emit_other)
  have g3: "\<exists>rest. emitted (expire h s) =
                emitted s @
                [(CHECK_FAILED,
                  [ACheck (Some c),
                   AText (''Reached timeout of '' @ string_of_int (seconds_value t)
                            @ '' seconds waiting for check result.'')]),
                 (CHECK_FINISHED, [ACheck (Some c)])] @ rest
                \<and> (rest = [] \<or> rest = [(RUN_FINISHED, [ASession sid])])"
    unfolding e by (simp add: microtasks_emitted mc c timeout_message_def del: emit_other)
  have g4: "expire h (expire h s) = expire h s"
    using g2 by (simp add: expire_def [of h "expire h s"])
  have g5: "read_int (string_of_int (seconds_value t)) = Some (seconds_value t)"
    by (rule read_int_string_of_int)
  have g6: "\<bar>seconds_value t\<bar> * 1000 < 2 ^ 53"
    using seconds_value [of t] by simp
  from inc tm' reg g1 g2 g3 g4 g5 g6 show ?thesis by blast
qed

theorem timer_expiry_fails_check_witness:
  "map_of (timers ex_runner) 1 = Some (Timer 5000 ''b'' ''check B'')
   \<and> seconds_value (Seconds 5) * 1000 = 5000
   \<and> map_of (timeouts ex_runner) ''b'' = Some 1
   \<and> map_of (timeouts (expire 1 ex_runner)) ''b'' = None
   \<and> (\<exists>rest. emitted (expire 1 ex_runner) =
         emitted ex_runner @
         [(CHECK_FAILED,
           [ACheck (Some ''check B''),
            AText ''Reached timeout of 5 seconds waiting for check result.'']),
          (CHECK_FINISHED, [ACheck (Some ''check B'')])] @ rest)
   \<and> read_int ''5'' = Some 5"
proof -
  have p: "map_of (timers ex_runner) 1 = Some (Timer 5000 ''b'' ''check B'')"
    by (simp add: ex_runner_eq)
  have m: "seconds_value (Seconds 5) * 1000 = 5000" by (simp add: ex_seconds)
  from timer_expiry_fails_check
         [OF ex_world_ok(1) ex_world_ok(2) ex_world_ok(3) ex_checks_distinct(1)
            ex_runner_reached p]
  obtain k c where "Timer 5000 ''b'' ''check B'' = Timer (seconds_value (Seconds 5) * 1000) k c"
    and r: "map_of (timeouts ex_runner) k = Some 1"
      "map_of (timeouts (expire 1 ex_runner)) k = None"
      "\<exists>rest. emitted (expire 1 ex_runner) =
         emitted ex_runner @
         [(CHECK_FAILED,
           [ACheck (Some c),
            AText (''Reached timeout of '' @ string_of_int (seconds_value (Seconds 5))
                     @ '' seconds waiting for check result.'')]),
          (CHECK_FINISHED, [ACheck (Some c)])] @ rest"
    and n: "read_int (string_of_int (seconds_value (Seconds 5))) = Some (seconds_value (Seconds 5))"
    by blast
  then have "k = ''b''" and "c = ''check B''" by simp_all
  with r have r': "map_of (timeouts ex_runner) ''b'' = Some 1"
      "map_of (timeouts (expire 1 ex_runner)) ''b'' = None"
      "\<exists>rest. emitted (expire 1 ex_runner) =
         emitted ex_runner @
         [(CHECK_FAILED,
           [ACheck (Some ''check B''),
            AText ''Reached timeout of 5 seconds waiting for check result.'']),
          (CHECK_FINISHED, [ACheck (Some ''check B'')])] @ rest"
    by (simp_all add: ex_seconds ex_digits)
  from n have n': "read_int ''5'' = Some 5" by (simp add: ex_seconds ex_digits)
  from p m r' n' show ?thesis by (intro conjI)
qed

text \<open>
  C6. When \<^verbatim>\<open>run()\<close> on a new runner fails to connect, to subscribe or to dispatch,
  then after it and after any later messages, queue work, settled
  fetches and timer expiries the events
  emitted are the one \<^verbatim>\<open>ERROR\<close> with the failure: no per-check event and no
  \<^verbatim>\<open>RUN_FINISHED\<close>. No timer is pending and the registry is empty. When the
  connection failed, the only call made to a collaborator is the connection attempt:
  nothing was subscribed and nothing dispatched.
\<close>

theorem setup_failure_emits_only_error:
  assumes "connect w = Inl e
         \<or> (connect w = Inr () \<and> subscribe w (result_topic a (uuid_v4 w)) = Inl e)
         \<or> (connect w = Inr () \<and> subscribe w (result_topic a (uuid_v4 w)) = Inr ()
             \<and> scheduleChecks w (uuid_v4 w) = Inl e)"
  shows "emitted (run_events (run w (constructor a t v)) evs) = [(ERROR, [AError e])]
       \<and> timers (run_events (run w (constructor a t v)) evs) = []
       \<and> timeouts (run_events (run w (constructor a t v)) evs) = []
       \<and> run_state (run_events (run w (constructor a t v)) evs) = Returned
       \<and> (connect w = Inl e \<longrightarrow> calls (run_events (run w (constructor a t v)) evs) = [Connect])"
proof -
  let ?s = "run w (constructor a t v)"
  note f = run_failure [OF assms, of t v]
  from f have "timeouts ?s = []" "timers ?s = []" "busy ?s = None" "run_state ?s \<noteq> Awaiting"
    by simp_all
  from quiet_run_events [OF this, of evs] f show ?thesis by simp
qed

theorem setup_failure_emits_only_error_witness:
  "scheduleChecks (ex_world (Inl (Failure ''dispatch''))) (uuid_v4 (ex_world (Inl (Failure ''dispatch'')))) =
     Inl (Failure ''dispatch'')
   \<and> emitted (run_events (run (ex_world (Inl (Failure ''dispatch''))) (constructor ''acc'' (Seconds 5) False))
        [Work (ex_api True True True), Expire 0]) = [(ERROR, [AError (Failure ''dispatch'')])]
   \<and> connect ((ex_world (Inl (Failure ''dispatch'')))\<lparr>connect := Inl (Failure ''refused'')\<rparr>) =
       Inl (Failure ''refused'')
   \<and> emitted (run_events (run ((ex_world (Inl (Failure ''dispatch'')))\<lparr>connect := Inl (Failure ''refused'')\<rparr>)
        (constructor ''acc'' (Seconds 5) False)) [Work (ex_api True True True)]) = [(ERROR, [AError (Failure ''refused'')])]
   \<and> calls (run_events (run ((ex_world (Inl (Failure ''dispatch'')))\<lparr>connect := Inl (Failure ''refused'')\<rparr>)
        (constructor ''acc'' (Seconds 5) False)) [Work (ex_api True True True)]) = [Connect]"
proof -
  let ?w = "ex_world (Inl (Failure ''dispatch''))"
  let ?w' = "?w\<lparr>connect := Inl (Failure ''refused'')\<rparr>"
  have d: "connect ?w = Inl (Failure ''dispatch'')
         \<or> (connect ?w = Inr () \<and> subscribe ?w (result_topic ''acc'' (uuid_v4 ?w)) = Inl (Failure ''dispatch''))
         \<or> (connect ?w = Inr () \<and> subscribe ?w (result_topic ''acc'' (uuid_v4 ?w)) = Inr ()
             \<and> scheduleChecks ?w (uuid_v4 ?w) = Inl (Failure ''dispatch''))"
    by (simp add: ex_world_ok)
  have c: "connect ?w' = Inl (Failure ''refused'')" by simp
  then have c': "connect ?w' = Inl (Failure ''refused'')
         \<or> (connect ?w' = Inr () \<and> subscribe ?w' (result_topic ''acc'' (uuid_v4 ?w')) = Inl (Failure ''refused''))
         \<or> (connect ?w' = Inr () \<and> subscribe ?w' (result_topic ''acc'' (uuid_v4 ?w')) = Inr ()
             \<and> scheduleChecks ?w' (uuid_v4 ?w') = Inl (Failure ''refused''))"
    by blast
  from setup_failure_emits_only_error [OF d, of "Seconds 5" False "[Work (ex_api True True True), Expire 0]"]
    setup_failure_emits_only_error [OF c', of "Seconds 5" False "[Work (ex_api True True True)]"]
    c ex_world_ok(3) [of "Inl (Failure ''dispatch'')"]
  show ?thesis by blast
qed

text \<open>
  C7. A \<^verbatim>\<open>run-start\<close> message for a check with an armed timer emits
  \<^verbatim>\<open>CHECK_INPROGRESS\<close> with the descriptor of that check and changes nothing else:
  the registry and the pending timers are the same, the timer is neither cleared nor
  set again. When that timer fires afterwards, the check still fails with the timeout
  message and finishes.
\<close>

theorem run_start_keeps_timer:
  assumes "map_of (timeouts s) checkRunId = Some h" and "checks s = Some cs"
  shows "processMessage api checkRunId ''run-start'' m s =
           (None, s\<lparr>emitted := emitted s @ [(CHECK_INPROGRESS, [ACheck (map_of cs checkRunId)])]\<rparr>)
         \<and> (\<forall>d c. map_of (timers s) h = Some (Timer d checkRunId c) \<longrightarrow>
              (\<exists>rest. emitted (expire h (snd (processMessage api checkRunId ''run-start'' m s))) =
                 emitted s @
                 [(CHECK_INPROGRESS, [ACheck (map_of cs checkRunId)]),
                  (CHECK_FAILED, [ACheck (Some c), AText (timeout_message (timeout s))]),
                  (CHECK_FINISHED, [ACheck (Some c)])] @ rest))"
  using assms
  by (auto simp add: processMessage_def expire_def timeout_callback_def microtasks_emitted Let_def)

theorem run_start_keeps_timer_witness:
  "map_of (timeouts ex_runner) ''a'' = Some 0 \<and> checks ex_runner = Some ex_checks
   \<and> map_of (timers ex_runner) 0 = Some (Timer 5000 ''a'' ''check A'')
   \<and> (\<exists>rest. emitted (expire 0 (snd (processMessage (ex_api True True True) ''a'' ''run-start'' ex_error ex_runner))) =
         emitted ex_runner @
         [(CHECK_INPROGRESS, [ACheck (map_of ex_checks ''a'')]),
          (CHECK_FAILED, [ACheck (Some ''check A''), AText (timeout_message (timeout ex_runner))]),
          (CHECK_FINISHED, [ACheck (Some ''check A'')])] @ rest)"
proof -
  have h1: "map_of (timeouts ex_runner) ''a'' = Some 0"
    by (simp add: ex_runner_eq)
  have h2: "checks ex_runner = Some ex_checks"
    by (simp add: ex_runner_eq ex_checks_def)
  have h3: "map_of (timers ex_runner) 0 = Some (Timer 5000 ''a'' ''check A'')"
    by (simp add: ex_runner_eq)
  from run_start_keeps_timer [OF h1 h2, of "ex_api True True True" ex_error] h3
  show ?thesis using h1 h2 by blast
qed

text \<open>
  C8. An \<^verbatim>\<open>error\<close> message for a check with an armed timer cancels the timer (the
  registry entry is deleted, the pending timer is cleared and its handle can no longer
  fire) and emits \<^verbatim>\<open>CHECK_FAILED\<close> with the message as received, then
  \<^verbatim>\<open>CHECK_FINISHED\<close>, both with the descriptor of that check.
\<close>

theorem error_message_fails_check:
  assumes "map_of (timeouts s) checkRunId = Some h" and "checks s = Some cs"
  shows "fst (processMessage api checkRunId ''error'' m s) = None
         \<and> map_of (timeouts (snd (processMessage api checkRunId ''error'' m s))) checkRunId = None
         \<and> map_of (timers (snd (processMessage api checkRunId ''error'' m s))) h = None
         \<and> expire h (snd (processMessage api checkRunId ''error'' m s)) =
             snd (processMessage api checkRunId ''error'' m s)
         \<and> emitted (snd (processMessage api checkRunId ''error'' m s)) =
             emitted s @ [(CHECK_FAILED, [ACheck (map_of cs checkRunId), AMessage m]),
                          (CHECK_FINISHED, [ACheck (map_of cs checkRunId)])]"
  using assms
  by (simp add: processMessage_def expire_def Let_def)

theorem error_message_fails_check_witness:
  "map_of (timeouts ex_runner) ''a'' = Some 0 \<and> checks ex_runner = Some ex_checks
   \<and> emitted (snd (processMessage (ex_api True True True) ''a'' ''error'' ex_error ex_runner)) =
       emitted ex_runner @ [(CHECK_FAILED, [ACheck (Some ''check A''), AMessage ex_error]),
                            (CHECK_FINISHED, [ACheck (Some ''check A'')])]"
  using error_message_fails_check [of ex_runner "''a''" 0 ex_checks "ex_api True True True" ex_error]
  by (simp add: ex_runner_eq ex_checks_def)

text \<open>
  C9. When the dispatch returns no checks, \<^verbatim>\<open>allChecksFinished\<close> returns a promise
  that is already resolved, and \<^verbatim>\<open>run()\<close> on a new runner emits \<^verbatim>\<open>RUN_STARTED\<close>
  and directly after it \<^verbatim>\<open>RUN_FINISHED\<close> and returns; nothing that happens later
  adds an event.
\<close>

theorem run_without_checks:
  assumes "connect w = Inr ()" and "subscribe w (result_topic a (uuid_v4 w)) = Inr ()"
    and "scheduleChecks w (uuid_v4 w) = Inr (Scheduled sid rids [])"
  shows "emitted (run w (constructor a t v)) =
           [(RUN_STARTED, [ASession sid, AResultIds rids]), (RUN_FINISHED, [ASession sid])]
       \<and> run_state (run w (constructor a t v)) = Returned
       \<and> promise (run w (constructor a t v)) = Some True
       \<and> (\<forall>s. checks s = Some [] \<longrightarrow>
             fst (allChecksFinished s) = None \<and> promise (snd (allChecksFinished s)) = Some True)
       \<and> (\<forall>evs. emitted (run_events (run w (constructor a t v)) evs) =
             [(RUN_STARTED, [ASession sid, AResultIds rids]), (RUN_FINISHED, [ASession sid])])"
proof -
  let ?s = "run w (constructor a t v)"
  note q = run_without_checks_eq [OF assms, of t v]
  from q have "run_state ?s \<noteq> Awaiting" by simp
  from quiet_run_events [OF q(2) q(3) q(4) this]
  have "\<forall>evs. emitted (run_events ?s evs) = emitted ?s" by simp
  with q show ?thesis
    by (simp add: allChecksFinished_def)
qed

theorem run_without_checks_witness:
  "connect (ex_world (Inr (Scheduled (Some ''s1'') None []))) = Inr ()
   \<and> emitted (run (ex_world (Inr (Scheduled (Some ''s1'') None []))) (constructor ''acc'' (Seconds 5) False)) =
       [(RUN_STARTED, [ASession (Some ''s1''), AResultIds None]),
        (RUN_FINISHED, [ASession (Some ''s1'')])]"
  using run_without_checks [OF ex_world_ok(1) ex_world_ok(2) ex_world_ok(3), of "Some ''s1''" None "Seconds 5" False]
    ex_world_ok(1)
  by blast

text \<open>
  C10. A message for a check with an armed timer whose subtopic is none of
  \<^verbatim>\<open>run-start\<close>, \<^verbatim>\<open>run-end\<close> and \<^verbatim>\<open>error\<close> falls through every branch:
  nothing is emitted and the state, the timer registry and the pending timers with it,
  is what it was, so the timer of the check is still pending with its delay.
\<close>

theorem processMessage_other_subtopic_ignored:
  assumes "map_of (timeouts s) checkRunId \<noteq> None"
    and "subtopic \<noteq> ''run-start''" and "subtopic \<noteq> ''run-end''" and "subtopic \<noteq> ''error''"
  shows "snd (processMessage api checkRunId subtopic m s) = s
         \<and> (checks s \<noteq> None \<longrightarrow> processMessage api checkRunId subtopic m s = (None, s))"
  using assms by (auto simp add: processMessage_def split: option.splits)

theorem processMessage_other_subtopic_ignored_witness:
  "map_of (timeouts ex_runner) ''a'' \<noteq> None \<and> ''run-progress'' \<noteq> ''run-start''
   \<and> ''run-progress'' \<noteq> ''run-end'' \<and> ''run-progress'' \<noteq> ''error'' \<and> checks ex_runner \<noteq> None
   \<and> processMessage (ex_api True True True) ''a'' ''run-progress'' ex_run_end ex_runner = (None, ex_runner)"
  using processMessage_other_subtopic_ignored
          [of ex_runner "''a''" "''run-progress''" "ex_api True True True" ex_run_end]
  by (simp add: ex_runner_eq)

end
